theory Spec2Isabelle
  imports Main "HOL-Library.Multiset"
begin

section \<open>Python values and errors\<close>

text \<open>
  Python integers are unbounded, so literals, variable ids and assignment entries are
  \<^typ>\<open>int\<close>. An exception of the source is the \<open>Inl\<close> side of a sum.
\<close>

datatype py_error = IndexError | ValueError | TypeError

text \<open>
  A clause inside the solver is a Python \<open>set\<close> of ints. The solver only asks a set for
  membership, for its length, for emptiness, for the set without one element, and for the
  element of a one-element set (\<open>next(iter(cl))\<close> after \<open>len(cl) == 1\<close>); none of these
  depends on the iteration order. A set is therefore held as a duplicate-free list:
  \<open>set(cl)\<close> is \<^const>\<open>remdups\<close>, \<open>cl - {x}\<close> is \<^const>\<open>removeAll\<close>, and the element of a
  one-element set is \<^const>\<open>hd\<close>.
\<close>

type_synonym clause = "int list"

section \<open>The encoders (src/solving/encoder.py and src/CODE/encoder.py)\<close>

text \<open>
  Both \<open>to_cnf\<close> functions read the puzzle file into \<open>text\<close>, one list of whitespace-separated
  tokens per line, and use nothing else of the file; the model starts from \<open>text\<close>. A token
  is only ever passed to \<open>int\<close>, so it is represented by the outcome of that call: \<open>Some v\<close>
  for the integer \<open>v\<close>, \<open>None\<close> where \<open>int\<close> raises ValueError. Grid indices and digits are
  natural numbers (the loops range over \<open>range(N)\<close> and \<open>range(1, N + 1)\<close>); literals are
  integers.
\<close>

type_synonym token = "int option"

text \<open>\<open>def var(r, c, v): return r * N * N + c * N + v\<close>, the same in both files.\<close>

definition var :: "nat \<Rightarrow> nat \<Rightarrow> nat \<Rightarrow> nat \<Rightarrow> int" where
  "var N r c v = int (r * N * N + c * N + v)"

text \<open>
  \<open>int(N ** 0.5)\<close>: the integer square root, the number of \<open>k \<ge> 1\<close> with \<open>k * k \<le> N\<close>
  (floating point is exact at the sizes of a grid that fits in memory).
\<close>

definition isqrt :: "nat \<Rightarrow> nat" where
  "isqrt N = length [k \<leftarrow> [1..<N + 1]. k * k \<le> N]"

text \<open>\<open>range(0, N, B)\<close> for a positive step \<open>B\<close>; a zero step raises ValueError.\<close>

definition range_step :: "nat \<Rightarrow> nat \<Rightarrow> nat list" where
  "range_step N B = map (\<lambda>k. k * B) [0..<(N + B - 1) div B]"

subsection \<open>Constraint families shared by the two files\<close>

text \<open>(2) for one row \<open>r\<close> and value \<open>v\<close>: the at-least-one clause, then the pairs.\<close>

definition row_block :: "nat \<Rightarrow> nat \<Rightarrow> nat \<Rightarrow> int list list" where
  "row_block N r v =
     [var N r c v. c \<leftarrow> [0..<N]]
     # [[- var N r c1 v, - var N r c2 v]. c1 \<leftarrow> [0..<N], c2 \<leftarrow> [c1 + 1..<N]]"

definition row_clauses :: "nat \<Rightarrow> int list list" where
  "row_clauses N = [cl. r \<leftarrow> [0..<N], v \<leftarrow> [1..<N + 1], cl \<leftarrow> row_block N r v]"

text \<open>(3) for one column \<open>c\<close> and value \<open>v\<close>.\<close>

definition col_block :: "nat \<Rightarrow> nat \<Rightarrow> nat \<Rightarrow> int list list" where
  "col_block N c v =
     [var N r c v. r \<leftarrow> [0..<N]]
     # [[- var N r1 c v, - var N r2 c v]. r1 \<leftarrow> [0..<N], r2 \<leftarrow> [r1 + 1..<N]]"

definition col_clauses :: "nat \<Rightarrow> int list list" where
  "col_clauses N = [cl. c \<leftarrow> [0..<N], v \<leftarrow> [1..<N + 1], cl \<leftarrow> col_block N c v]"

text \<open>
  (4) for one box and value \<open>v\<close>: \<open>vars_list\<close> (\<open>box\<close> in src/CODE) holds the variables of the
  box, and the pairs are taken by index.
\<close>

definition box_block :: "nat \<Rightarrow> nat \<Rightarrow> nat \<Rightarrow> nat \<Rightarrow> nat \<Rightarrow> int list list" where
  "box_block N B r_box c_box v =
     (let vars_list = [var N (r_box + i) (c_box + j) v. i \<leftarrow> [0..<B], j \<leftarrow> [0..<B]]
      in vars_list
         # [[- (vars_list ! i1), - (vars_list ! i2)].
              i1 \<leftarrow> [0..<length vars_list], i2 \<leftarrow> [i1 + 1..<length vars_list]])"

definition box_clauses :: "nat \<Rightarrow> nat \<Rightarrow> int list list" where
  "box_clauses N B =
     [cl. r_box \<leftarrow> range_step N B, c_box \<leftarrow> range_step N B, v \<leftarrow> [1..<N + 1],
          cl \<leftarrow> box_block N B r_box c_box v]"

text \<open>
  (6) the clue loop over the cells in row-major order. \<open>text[r][c]\<close> raises IndexError when
  row \<open>r\<close> has no token \<open>c\<close>, \<open>int(v)\<close> raises ValueError on a token that is not an integer; a
  positive value appends the unit clause.
\<close>

fun clue_clauses :: "nat \<Rightarrow> token list list \<Rightarrow> (nat \<times> nat) list \<Rightarrow> py_error + int list list" where
  "clue_clauses N text [] = Inr []"
| "clue_clauses N text ((r, c) # cells) =
     (if c \<ge> length (text ! r) then Inl IndexError
      else case text ! r ! c of
             None \<Rightarrow> Inl ValueError
           | Some v \<Rightarrow>
               (case clue_clauses N text cells of
                  Inl e \<Rightarrow> Inl e
                | Inr clauses \<Rightarrow> Inr ((if v > 0 then [[var N r c (nat v)]] else []) @ clauses)))"

subsection \<open>src/solving/encoder.py\<close>

text \<open>(1) for one cell.\<close>

definition cell_block :: "nat \<Rightarrow> nat \<Rightarrow> nat \<Rightarrow> int list list" where
  "cell_block N r c =
     [var N r c v. v \<leftarrow> [1..<N + 1]]
     # [[- var N r c v1, - var N r c v2]. v1 \<leftarrow> [1..<N + 1], v2 \<leftarrow> [v1 + 1..<N + 1]]"

definition cell_clauses :: "nat \<Rightarrow> int list list" where
  "cell_clauses N = [cl. r \<leftarrow> [0..<N], c \<leftarrow> [0..<N], cl \<leftarrow> cell_block N r c]"

text \<open>(5) for one cell and value: the right neighbour first, then the one below.\<close>

definition adjacency_block :: "nat \<Rightarrow> nat \<Rightarrow> nat \<Rightarrow> nat \<Rightarrow> int list list" where
  "adjacency_block N r c v =
     (if c + 1 < N then
        (if v < N then [[- var N r c v, - var N r (c + 1) (v + 1)]] else [])
        @ (if v > 1 then [[- var N r c v, - var N r (c + 1) (v - 1)]] else [])
      else [])
     @ (if r + 1 < N then
          (if v < N then [[- var N r c v, - var N (r + 1) c (v + 1)]] else [])
          @ (if v > 1 then [[- var N r c v, - var N (r + 1) c (v - 1)]] else [])
        else [])"

definition adjacency_clauses :: "nat \<Rightarrow> int list list" where
  "adjacency_clauses N =
     [cl. r \<leftarrow> [0..<N], c \<leftarrow> [0..<N], v \<leftarrow> [1..<N + 1], cl \<leftarrow> adjacency_block N r c v]"

definition solving_to_cnf :: "token list list \<Rightarrow> py_error + (int list list \<times> int)" where
  "solving_to_cnf text =
     (let N = length text; B = isqrt N in
      if B = 0 then Inl ValueError
      else case clue_clauses N text [(r, c). r \<leftarrow> [0..<N], c \<leftarrow> [0..<N]] of
             Inl e \<Rightarrow> Inl e
           | Inr clues \<Rightarrow>
               Inr (cell_clauses N @ row_clauses N @ col_clauses N @ box_clauses N B
                      @ adjacency_clauses N @ clues,
                    int (N * N * N)))"

subsection \<open>src/CODE/encoder.py\<close>

text \<open>
  The at-least-one clause of a cell ranges over \<open>range(1, 10)\<close>; the pairs range over
  \<open>range(1, N + 1)\<close>.
\<close>

definition CODE_cell_block :: "nat \<Rightarrow> nat \<Rightarrow> nat \<Rightarrow> int list list" where
  "CODE_cell_block N r c =
     [var N r c v. v \<leftarrow> [1..<10]]
     # [[- var N r c v1, - var N r c v2]. v1 \<leftarrow> [1..<N + 1], v2 \<leftarrow> [v1 + 1..<N + 1]]"

definition CODE_cell_clauses :: "nat \<Rightarrow> int list list" where
  "CODE_cell_clauses N = [cl. r \<leftarrow> [0..<N], c \<leftarrow> [0..<N], cl \<leftarrow> CODE_cell_block N r c]"

text \<open>The non-consecutive rule for one cell \<open>(i, j)\<close> and value: \<open>i + 1\<close> first, then \<open>j + 1\<close>.\<close>

definition CODE_adjacency_block :: "nat \<Rightarrow> nat \<Rightarrow> nat \<Rightarrow> nat \<Rightarrow> int list list" where
  "CODE_adjacency_block N i j v =
     (if i + 1 < N then
        (if v + 1 \<le> N then [[- var N i j v, - var N (i + 1) j (v + 1)]] else [])
        @ (if v - 1 \<ge> 1 then [[- var N i j v, - var N (i + 1) j (v - 1)]] else [])
      else [])
     @ (if j + 1 < N then
          (if v + 1 \<le> N then [[- var N i j v, - var N i (j + 1) (v + 1)]] else [])
          @ (if v - 1 \<ge> 1 then [[- var N i j v, - var N i (j + 1) (v - 1)]] else [])
        else [])"

definition CODE_adjacency_clauses :: "nat \<Rightarrow> int list list" where
  "CODE_adjacency_clauses N =
     [cl. i \<leftarrow> [0..<N], j \<leftarrow> [0..<N], v \<leftarrow> [1..<N + 1], cl \<leftarrow> CODE_adjacency_block N i j v]"

text \<open>
  \<open>to_cnf\<close> of src/CODE. Its \<open>print\<close> calls write to standard output only and are left out.
\<close>

definition CODE_to_cnf :: "token list list \<Rightarrow> py_error + (int list list \<times> int)" where
  "CODE_to_cnf text =
     (let N = length text; boxdim = isqrt N in
      if boxdim = 0 then Inl ValueError
      else case clue_clauses N text [(i, j). i \<leftarrow> [0..<N], j \<leftarrow> [0..<N]] of
             Inl e \<Rightarrow> Inl e
           | Inr clues \<Rightarrow>
               Inr (CODE_cell_clauses N @ row_clauses N @ col_clauses N @ box_clauses N boxdim
                      @ CODE_adjacency_clauses N @ clues,
                    int (N * N * N)))"

section \<open>The DPLL solver (src/solver.py)\<close>

subsection \<open>Unit propagation\<close>

text \<open>
  The \<open>for cl in clauses\<close> loop inside the \<open>while unit_queue\<close> loop. \<open>None\<close> is the
  early \<open>return False, None\<close> on an emptied clause; otherwise the loop leaves
  \<open>new_clauses\<close> and the extended \<open>unit_queue\<close>.
\<close>

fun reduce_unit :: "int \<Rightarrow> clause list \<Rightarrow> clause list \<Rightarrow> int list
    \<Rightarrow> (clause list \<times> int list) option" where
  "reduce_unit lit [] new_clauses unit_queue = Some (new_clauses, unit_queue)"
| "reduce_unit lit (cl # cls) new_clauses unit_queue =
     (if lit \<in> set cl then reduce_unit lit cls new_clauses unit_queue
      else if - lit \<in> set cl then
        (let cl' = removeAll (- lit) cl in
         if cl' = [] then None
         else if length cl' = 1
           then reduce_unit lit cls (new_clauses @ [cl']) (unit_queue @ [hd cl'])
           else reduce_unit lit cls (new_clauses @ [cl']) unit_queue)
      else reduce_unit lit cls (new_clauses @ [cl]) unit_queue)"

text \<open>\<open>val = 1 if lit > 0 else -1\<close>\<close>

definition polarity :: "int \<Rightarrow> int" where
  "polarity lit = (if lit > 0 then 1 else - 1)"

text \<open>
  The number of assignment entries that are neither \<open>1\<close> nor \<open>-1\<close>; every assignment made
  by the \<open>while\<close> loop lowers it.
\<close>

definition undecided :: "int list \<Rightarrow> nat" where
  "undecided assignment = length (filter (\<lambda>x. x \<noteq> 1 \<and> x \<noteq> - 1) assignment)"

text \<open>
  The \<open>while unit_queue\<close> loop. \<open>unit_queue.pop()\<close> takes the last element.
  \<open>assignment[var]\<close> raises IndexError when \<open>var = abs(lit)\<close> is not an index of the list.
  The result is \<open>Inr None\<close> for \<open>return False, None\<close>, and \<open>Inr (Some (clauses, assignment))\<close>
  when the queue runs empty.
\<close>

function unit_propagate :: "clause list \<Rightarrow> int list \<Rightarrow> int list
    \<Rightarrow> py_error + (clause list \<times> int list) option" where
  "unit_propagate clauses assignment unit_queue =
     (if unit_queue = [] then Inr (Some (clauses, assignment))
      else if nat \<bar>last unit_queue\<bar> \<ge> length assignment then Inl IndexError
      else if assignment ! nat \<bar>last unit_queue\<bar> = - polarity (last unit_queue) then Inr None
      else if assignment ! nat \<bar>last unit_queue\<bar> = polarity (last unit_queue)
        then unit_propagate clauses assignment (butlast unit_queue)
      else (case reduce_unit (last unit_queue) clauses [] (butlast unit_queue) of
              None \<Rightarrow> Inr None
            | Some (new_clauses, unit_queue') \<Rightarrow>
                unit_propagate new_clauses
                  (assignment[nat \<bar>last unit_queue\<bar> := polarity (last unit_queue)])
                  unit_queue'))"
  by pat_completeness auto

lemma undecided_update:
  assumes "i < length a" "a ! i \<noteq> 1" "a ! i \<noteq> - 1" "v = 1 \<or> v = - 1"
  shows "undecided (a[i := v]) < undecided a"
  using assms
proof (induction a arbitrary: i)
  case Nil
  then show ?case by simp
next
  case (Cons x a)
  then show ?case
    by (cases i) (auto simp: undecided_def)
qed

termination unit_propagate
  by (relation "measures [\<lambda>(c, a, q). undecided a, \<lambda>(c, a, q). length q]")
     (auto simp: polarity_def intro!: undecided_update)

declare unit_propagate.simps [simp del]

lemma unit_propagate_empty:
  "unit_propagate clauses assignment [] = Inr (Some (clauses, assignment))"
  by (subst unit_propagate.simps) simp

lemma unit_propagate_skip:
  assumes "unit_queue \<noteq> []" "nat \<bar>last unit_queue\<bar> < length assignment"
    and "assignment ! nat \<bar>last unit_queue\<bar> = polarity (last unit_queue)"
  shows "unit_propagate clauses assignment unit_queue
           = unit_propagate clauses assignment (butlast unit_queue)"
  using assms by (subst unit_propagate.simps) (auto simp: polarity_def split: if_splits)

lemma unit_propagate_assign:
  assumes "unit_queue \<noteq> []" "nat \<bar>last unit_queue\<bar> < length assignment"
    and "assignment ! nat \<bar>last unit_queue\<bar> \<noteq> polarity (last unit_queue)"
    and "assignment ! nat \<bar>last unit_queue\<bar> \<noteq> - polarity (last unit_queue)"
  shows "unit_propagate clauses assignment unit_queue
           = (case reduce_unit (last unit_queue) clauses [] (butlast unit_queue) of
                None \<Rightarrow> Inr None
              | Some (new_clauses, unit_queue') \<Rightarrow>
                  unit_propagate new_clauses
                    (assignment[nat \<bar>last unit_queue\<bar> := polarity (last unit_queue)])
                    unit_queue')"
  using assms by (subst unit_propagate.simps) simp

lemma unit_propagate_cases:
  assumes "unit_propagate clauses assignment unit_queue = Inr (Some (clauses', assignment'))"
  obtains
    (empty) "unit_queue = []" "clauses' = clauses" "assignment' = assignment"
  | (skip) "unit_queue \<noteq> []" "nat \<bar>last unit_queue\<bar> < length assignment"
      "assignment ! nat \<bar>last unit_queue\<bar> \<noteq> - polarity (last unit_queue)"
      "assignment ! nat \<bar>last unit_queue\<bar> = polarity (last unit_queue)"
      "unit_propagate clauses assignment (butlast unit_queue) = Inr (Some (clauses', assignment'))"
  | (assign) new_clauses unit_queue' where
      "unit_queue \<noteq> []" "nat \<bar>last unit_queue\<bar> < length assignment"
      "assignment ! nat \<bar>last unit_queue\<bar> \<noteq> - polarity (last unit_queue)"
      "assignment ! nat \<bar>last unit_queue\<bar> \<noteq> polarity (last unit_queue)"
      "reduce_unit (last unit_queue) clauses [] (butlast unit_queue)
         = Some (new_clauses, unit_queue')"
      "unit_propagate new_clauses
         (assignment[nat \<bar>last unit_queue\<bar> := polarity (last unit_queue)]) unit_queue'
         = Inr (Some (clauses', assignment'))"
proof (cases "unit_queue = []")
  case True
  with assms empty show ?thesis by (simp add: unit_propagate_empty)
next
  case False
  note ne = this
  from assms ne have inr: "nat \<bar>last unit_queue\<bar> < length assignment"
    "assignment ! nat \<bar>last unit_queue\<bar> \<noteq> - polarity (last unit_queue)"
    by (subst (asm) unit_propagate.simps, simp split: if_splits)+
  show ?thesis
  proof (cases "assignment ! nat \<bar>last unit_queue\<bar> = polarity (last unit_queue)")
    case True
    with assms ne inr skip show ?thesis
      by (simp add: unit_propagate_skip)
  next
    case False
    with assms ne inr assign show ?thesis
      by (simp add: unit_propagate_assign split: option.splits prod.splits)
  qed
qed


lemma unit_propagate_undecided:
  "unit_propagate clauses assignment unit_queue = Inr (Some (clauses', assignment'))
   \<Longrightarrow> undecided assignment' \<le> undecided assignment \<and> length assignment' = length assignment"
proof (induction clauses assignment unit_queue rule: unit_propagate.induct)
  case (1 clauses assignment unit_queue)
  let ?lit = "last unit_queue"
  let ?var = "nat \<bar>?lit\<bar>"
  from "1.prems" show ?case
  proof (cases rule: unit_propagate_cases)
    case empty
    then show ?thesis by simp
  next
    case skip
    with "1.IH"(1) show ?thesis by simp
  next
    case (assign new_clauses unit_queue')
    from "1.IH"(2)[OF assign(1) _ assign(3,4,5) refl assign(6)] assign(2)
    have "undecided assignment' \<le> undecided (assignment[?var := polarity ?lit])"
      and len: "length assignment' = length assignment"
      by simp_all
    moreover have "undecided (assignment[?var := polarity ?lit]) < undecided assignment"
      using assign(2,3,4) by (intro undecided_update) (auto simp: polarity_def split: if_splits)
    ultimately show ?thesis by simp
  qed
qed

subsection \<open>Search\<close>

text \<open>\<open>[next(iter(cl)) for cl in clauses if len(cl) == 1]\<close>\<close>

definition unit_literals :: "clause list \<Rightarrow> int list" where
  "unit_literals clauses = [hd cl. cl \<leftarrow> clauses, length cl = 1]"

text \<open>
  Reading \<open>assignment[i]\<close> for every \<open>i\<close> in \<open>range(1, num_vars + 1)\<close> raises IndexError
  unless the range is empty or its last index is inside the list.
\<close>

definition indices_ok :: "int list \<Rightarrow> int \<Rightarrow> bool" where
  "indices_ok assignment num_vars \<longleftrightarrow> num_vars < 1 \<or> num_vars < int (length assignment)"

text \<open>
  The model of a branch without clauses: a copy of the assignment in which every entry
  \<open>1 .. num_vars\<close> that is still \<open>0\<close> becomes \<open>-1\<close>.
\<close>

definition fill_model :: "int list \<Rightarrow> int \<Rightarrow> int list" where
  "fill_model assignment num_vars =
     foldl (\<lambda>model i. if model ! nat i = 0 then model[nat i := - 1] else model)
       assignment [1..num_vars]"

definition unassigned_vars :: "int list \<Rightarrow> int \<Rightarrow> int list" where
  "unassigned_vars assignment num_vars = [i. i \<leftarrow> [1..num_vars], assignment ! nat i = 0]"

text \<open>
  Python's \<open>max(xs, key=f)\<close> keeps the first element whose key is largest: a later element
  replaces the running maximum only when its key is strictly larger.
\<close>

fun max_by :: "('a \<Rightarrow> nat) \<Rightarrow> 'a \<Rightarrow> 'a list \<Rightarrow> 'a" where
  "max_by key best [] = best"
| "max_by key best (x # xs) = max_by key (if key x > key best then x else best) xs"

text \<open>
  \<open>literal_counts\<close> is a \<open>Counter\<close>; \<open>literal_counts.get(l, 0)\<close> is the count of \<open>l\<close>, \<open>0\<close>
  for a literal that was never counted, so the counter is a total function.
\<close>

definition choose_var :: "(int \<Rightarrow> nat) \<Rightarrow> int list \<Rightarrow> int" where
  "choose_var literal_counts vars =
     max_by (\<lambda>v. literal_counts v + literal_counts (- v)) (hd vars) (tl vars)"

text \<open>
  The \<open>for cl in clauses\<close> loop of one branch; \<open>None\<close> is \<open>conflict = True; break\<close>.
\<close>

fun branch_reduce :: "int \<Rightarrow> int \<Rightarrow> clause list \<Rightarrow> clause list \<Rightarrow> clause list option" where
  "branch_reduce target_lit opp_lit [] new_clauses = Some new_clauses"
| "branch_reduce target_lit opp_lit (cl # cls) new_clauses =
     (if target_lit \<in> set cl then branch_reduce target_lit opp_lit cls new_clauses
      else if opp_lit \<in> set cl then
        (let cl' = removeAll opp_lit cl in
         if cl' = [] then None
         else branch_reduce target_lit opp_lit cls (new_clauses @ [cl']))
      else branch_reduce target_lit opp_lit cls (new_clauses @ [cl]))"

text \<open>
  \<open>dpll\<close>. The parameters \<open>stats\<close> and \<open>start_time\<close> of the source are passed along and
  never read or written, so the model leaves them out. The loop \<open>for val in (1, -1)\<close> is
  written out as its two rounds: a round whose clause loop hits a conflict, or whose
  recursive call is not satisfiable, goes on to the next round; after the second round the
  function returns \<open>False, None\<close>. An exception of a recursive call propagates.

  The model puts no bound on the depth of the recursion. The source nests one call of
  \<open>dpll\<close> per decision, and the interpreter raises RecursionError beyond its recursion limit
  (1000 frames by default, never raised in the source); that exception is not represented.
  A result of \<open>dpll\<close> is therefore the result of the source for runs that stay within the
  limit, as every run over at most 729 variables does.
\<close>

function dpll :: "clause list \<Rightarrow> int list \<Rightarrow> (int \<Rightarrow> nat) \<Rightarrow> int
    \<Rightarrow> py_error + (bool \<times> int list option)" where
  "dpll clauses assignment literal_counts num_vars =
     (case unit_propagate (map remdups clauses) assignment
             (unit_literals (map remdups clauses)) of
        Inl e \<Rightarrow> Inl e
      | Inr None \<Rightarrow> Inr (False, None)
      | Inr (Some (clauses', assignment')) \<Rightarrow>
          if \<not> indices_ok assignment' num_vars then Inl IndexError
          else if clauses' = [] then Inr (True, Some (fill_model assignment' num_vars))
          else if unassigned_vars assignment' num_vars = [] then Inr (False, None)
          else
            (case
               (case branch_reduce (choose_var literal_counts (unassigned_vars assignment' num_vars))
                       (- choose_var literal_counts (unassigned_vars assignment' num_vars))
                       clauses' [] of
                  None \<Rightarrow> Inr (False, None)
                | Some new_clauses \<Rightarrow>
                    dpll new_clauses
                      (assignment'[nat (choose_var literal_counts
                                          (unassigned_vars assignment' num_vars)) := 1])
                      literal_counts num_vars)
             of
               Inl e \<Rightarrow> Inl e
             | Inr (True, model) \<Rightarrow> Inr (True, model)
             | Inr (False, _) \<Rightarrow>
                 (case branch_reduce
                         (- choose_var literal_counts (unassigned_vars assignment' num_vars))
                         (choose_var literal_counts (unassigned_vars assignment' num_vars))
                         clauses' [] of
                    None \<Rightarrow> Inr (False, None)
                  | Some new_clauses \<Rightarrow>
                      (case dpll new_clauses
                              (assignment'[nat (choose_var literal_counts
                                                  (unassigned_vars assignment' num_vars)) := - 1])
                              literal_counts num_vars of
                         Inl e \<Rightarrow> Inl e
                       | Inr (True, model) \<Rightarrow> Inr (True, model)
                       | Inr (False, _) \<Rightarrow> Inr (False, None)))))"
  by pat_completeness auto

lemma max_by_mem: "max_by key best xs \<in> set (best # xs)"
  by (induction xs arbitrary: best) auto

lemma choose_var_mem: "vars \<noteq> [] \<Longrightarrow> choose_var literal_counts vars \<in> set vars"
  using max_by_mem[of _ "hd vars" "tl vars"] by (cases vars) (auto simp: choose_var_def)

lemma choose_var_unassigned:
  assumes "unassigned_vars a n \<noteq> []" "indices_ok a n"
  shows "nat (choose_var lc (unassigned_vars a n)) < length a"
    and "a ! nat (choose_var lc (unassigned_vars a n)) = 0"
    and "1 \<le> choose_var lc (unassigned_vars a n)"
    and "choose_var lc (unassigned_vars a n) \<le> n"
proof -
  have "choose_var lc (unassigned_vars a n) \<in> set (unassigned_vars a n)"
    using assms(1) by (rule choose_var_mem)
  then have *: "1 \<le> choose_var lc (unassigned_vars a n)"
      "choose_var lc (unassigned_vars a n) \<le> n"
      "a ! nat (choose_var lc (unassigned_vars a n)) = 0"
    by (auto simp: unassigned_vars_def)
  with assms(2) show "nat (choose_var lc (unassigned_vars a n)) < length a"
    by (auto simp: indices_ok_def)
  from * show "a ! nat (choose_var lc (unassigned_vars a n)) = 0"
    "1 \<le> choose_var lc (unassigned_vars a n)" "choose_var lc (unassigned_vars a n) \<le> n"
    by simp_all
qed

lemma branch_undecided:
  assumes "unit_propagate cs a q = Inr (Some (cs', a'))"
    and "indices_ok a' n" "unassigned_vars a' n \<noteq> []" "v = 1 \<or> v = - 1"
  shows "undecided (a'[nat (choose_var lc (unassigned_vars a' n)) := v]) < undecided a"
proof -
  have "undecided (a'[nat (choose_var lc (unassigned_vars a' n)) := v]) < undecided a'"
    using choose_var_unassigned[OF assms(3,2), of lc] assms(4)
    by (intro undecided_update) auto
  with unit_propagate_undecided[OF assms(1)] show ?thesis by simp
qed

termination dpll
  by (relation "measure (\<lambda>(c, a, lc, n). undecided a)")
     (auto intro!: branch_undecided)

declare dpll.simps [simp del]


subsection \<open>Entry point and decoding\<close>

text \<open>\<open>Counter(l for cl in clauses for l in cl)\<close>\<close>

definition literal_counts_of :: "clause list \<Rightarrow> int \<Rightarrow> nat" where
  "literal_counts_of clauses l = count_list (concat clauses) l"

text \<open>
  The loop \<open>for var_index in range(1, num_vars + 1)\<close> that writes the grid
  (\<open>decode_var\<close> is its body). The divisors
  \<open>81\<close> and \<open>9\<close> are the literals of the source. \<open>var_index\<close> starts at \<open>1\<close>, so \<open>row\<close> and
  \<open>col\<close> are never negative, and \<open>grid[row]\<close> raises IndexError when \<open>row\<close> is not a row of
  the grid.
\<close>

definition decode_var :: "int list \<Rightarrow> int \<Rightarrow> int list list \<Rightarrow> py_error + int list list" where
  "decode_var model_assignment var_index grid =
     (if nat var_index \<ge> length model_assignment then Inl IndexError
      else if model_assignment ! nat var_index = 1 then
        (let var = var_index - 1;
             row = var div 81;
             col = (var mod 81) div 9;
             digit = (var mod 9) + 1
         in if nat row \<ge> length grid \<or> nat col \<ge> length (grid ! nat row) then Inl IndexError
            else Inr (grid[nat row := (grid ! nat row)[nat col := digit]]))
      else Inr grid)"

fun decode_grid :: "int list \<Rightarrow> int list \<Rightarrow> int list list \<Rightarrow> py_error + int list list" where
  "decode_grid model_assignment [] grid = Inr grid"
| "decode_grid model_assignment (var_index # rest) grid =
     (case decode_var model_assignment var_index grid of
        Inl e \<Rightarrow> Inl e
      | Inr grid' \<Rightarrow> decode_grid model_assignment rest grid')"

text \<open>
  \<open>solve_cnf\<close>. The status is the string the source returns. \<open>dpll\<close> never returns
  \<open>True\<close> with \<open>None\<close>; the branch is kept as Python would run it (indexing \<open>None\<close> raises
  TypeError as soon as the loop has a first index).
\<close>

definition solve_cnf :: "int list list \<Rightarrow> int \<Rightarrow> py_error + (string \<times> int list list option)" where
  "solve_cnf clauses num_vars =
     (case dpll (map remdups clauses) (replicate (nat (num_vars + 1)) 0)
             (literal_counts_of (map remdups clauses)) num_vars of
        Inl e \<Rightarrow> Inl e
      | Inr (False, _) \<Rightarrow> Inr (''UNSAT'', None)
      | Inr (True, None) \<Rightarrow>
          if num_vars < 1 then Inr (''SAT'', Some (replicate 9 (replicate 9 0)))
          else Inl TypeError
      | Inr (True, Some model_assignment) \<Rightarrow>
          (case decode_grid model_assignment [1..num_vars] (replicate 9 (replicate 9 0)) of
             Inl e \<Rightarrow> Inl e
           | Inr grid \<Rightarrow> Inr (''SAT'', Some grid)))"


section \<open>The unfinished solver (src/solving/solver.py)\<close>

text \<open>
  The dictionary \<open>truth_values\<close> maps a variable to \<open>None\<close>, \<open>True\<close> or \<open>False\<close>: a map into
  \<^typ>\<open>bool option\<close>, \<open>Some None\<close> being a key that holds Python's \<open>None\<close>. Storing into a
  dictionary never fails, also for a key outside \<open>1 .. num_vars\<close>.
\<close>

definition record_unit :: "(int \<rightharpoonup> bool option) \<Rightarrow> int list \<Rightarrow> (int \<rightharpoonup> bool option)" where
  "record_unit truth_values clause =
     (if length clause = 1 then
        (if clause ! 0 < 0 then truth_values(\<bar>clause ! 0\<bar> \<mapsto> Some False)
         else truth_values(\<bar>clause ! 0\<bar> \<mapsto> Some True))
      else truth_values)"

text \<open>
  \<open>solve_cnf\<close> of src/solving/solver.py, for clauses given as lists. The result is the pair
  of what the function prints (the dictionary) and what it returns: \<open>return None\<close>, the
  \<open>None\<close> of the optional status-and-model pair.
\<close>

definition solving_solve_cnf :: "int list list \<Rightarrow> int
    \<Rightarrow> (int \<rightharpoonup> bool option) \<times> (string \<times> int list option) option" where
  "solving_solve_cnf clauses num_vars =
     (let truth_values = foldl (\<lambda>tv i. tv(i \<mapsto> None)) Map.empty [1..num_vars];
          truth_values = foldl record_unit truth_values clauses
      in (truth_values, None))"

section \<open>Vocabulary of the properties\<close>

definition lit_true :: "int list \<Rightarrow> int \<Rightarrow> bool" where
  "lit_true model l \<longleftrightarrow>
     (0 < l \<and> nat l < length model \<and> model ! nat l = 1) \<or>
     (l < 0 \<and> nat (- l) < length model \<and> model ! nat (- l) = - 1)"

definition clause_true :: "int list \<Rightarrow> int list \<Rightarrow> bool" where
  "clause_true model cl \<longleftrightarrow> (\<exists>l \<in> set cl. lit_true model l)"

definition total_model :: "int list \<Rightarrow> int \<Rightarrow> bool" where
  "total_model model num_vars \<longleftrightarrow>
     length model = nat (num_vars + 1) \<and>
     (\<forall>i. 1 \<le> i \<and> i \<le> num_vars \<longrightarrow> model ! nat i = 1 \<or> model ! nat i = - 1)"

definition agrees :: "int list \<Rightarrow> int list \<Rightarrow> bool" where
  "agrees m a \<longleftrightarrow> length m = length a \<and>
     (\<forall>i < length a. a ! i = 1 \<or> a ! i = - 1 \<longrightarrow> m ! i = a ! i)"

definition ternary :: "int list \<Rightarrow> bool" where
  "ternary a \<longleftrightarrow> set a \<subseteq> {- 1, 0, 1}"

definition nonzero :: "int list list \<Rightarrow> bool" where
  "nonzero cls \<longleftrightarrow> (\<forall>cl \<in> set cls. 0 \<notin> set cl)"

definition simplify :: "int \<Rightarrow> int \<Rightarrow> clause list \<Rightarrow> clause list" where
  "simplify t opp cls = map (removeAll opp) (filter (\<lambda>cl. t \<notin> set cl) cls)"

definition blocked :: "int \<Rightarrow> int \<Rightarrow> clause list \<Rightarrow> bool" where
  "blocked t opp cls \<longleftrightarrow> (\<exists>cl \<in> set cls. t \<notin> set cl \<and> opp \<in> set cl \<and> removeAll opp cl = [])"

definition holds :: "(int \<Rightarrow> bool) \<Rightarrow> int \<Rightarrow> bool" where
  "holds v l \<longleftrightarrow> (0 < l \<and> v l) \<or> (l < 0 \<and> \<not> v (- l))"

definition satisfies :: "(int \<Rightarrow> bool) \<Rightarrow> int list list \<Rightarrow> bool" where
  "satisfies v cls \<longleftrightarrow> (\<forall>cl \<in> set cls. \<exists>l \<in> set cl. holds v l)"

definition satisfiable :: "int list list \<Rightarrow> bool" where
  "satisfiable cls \<longleftrightarrow> (\<exists>v. satisfies v cls)"

definition well_formed :: "int list list \<Rightarrow> int \<Rightarrow> bool" where
  "well_formed cls n \<longleftrightarrow> (\<forall>cl \<in> set cls. \<forall>l \<in> set cl. l \<noteq> 0 \<and> \<bar>l\<bar> \<le> n)"

definition consistent :: "(int \<Rightarrow> bool) \<Rightarrow> int list \<Rightarrow> bool" where
  "consistent v a \<longleftrightarrow>
     (\<forall>i < length a. (a ! i = 1 \<longrightarrow> v (int i)) \<and> (a ! i = - 1 \<longrightarrow> \<not> v (int i)))"

definition fresh :: "int list list \<Rightarrow> int list \<Rightarrow> bool" where
  "fresh cls a \<longleftrightarrow> (\<forall>cl \<in> set cls. \<forall>l \<in> set cl. a ! nat \<bar>l\<bar> = 0)"

definition entailed :: "int list list \<Rightarrow> int list \<Rightarrow> int \<Rightarrow> bool" where
  "entailed cls a l \<longleftrightarrow> (\<forall>v. consistent v a \<and> satisfies v cls \<longrightarrow> holds v l)"

definition grid9 :: "int list list \<Rightarrow> bool" where
  "grid9 g \<longleftrightarrow> length g = 9 \<and> (\<forall>row \<in> set g. length row = 9)"


text \<open>
  The inverse of the variable numbering in the spec's words, for a grid of size \<open>N\<close>:
  \<open>r = (i - 1) div N\<^sup>2\<close>, \<open>c = ((i - 1) mod N\<^sup>2) div N\<close>, \<open>v = ((i - 1) mod N) + 1\<close>.
\<close>

definition unvar :: "nat \<Rightarrow> int \<Rightarrow> nat \<times> nat \<times> nat" where
  "unvar N i = (nat ((i - 1) div int (N * N)), nat (((i - 1) mod int (N * N)) div int N),
                nat ((i - 1) mod int N + 1))"

text \<open>
  The inputs on which the encoders return: at least one line, and on each of the \<open>N\<close> lines
  the first \<open>N\<close> tokens exist and are integers.
\<close>

definition accepted :: "token list list \<Rightarrow> bool" where
  "accepted text \<longleftrightarrow> text \<noteq> [] \<and>
     (\<forall>row \<in> set text. length text \<le> length row
        \<and> (\<forall>tok \<in> set (take (length text) row). tok \<noteq> None))"

text \<open>The literals of the unit clauses on variable \<open>k\<close>, in the order of the clauses.\<close>

definition units_on :: "int list list \<Rightarrow> int \<Rightarrow> int list" where
  "units_on clauses k = [hd cl. cl \<leftarrow> clauses, length cl = 1 \<and> \<bar>hd cl\<bar> = k]"





section \<open>Properties of the DPLL solver\<close>

lemma reduce_unit_Some:
  "reduce_unit lit cls acc q = Some (nc, q') \<Longrightarrow>
     nc = acc @ simplify lit (- lit) cls \<and>
     q' = q @ unit_literals (simplify lit (- lit) [cl \<leftarrow> cls. - lit \<in> set cl]) \<and>
     \<not> blocked lit (- lit) cls"
proof (induction cls arbitrary: acc q)
  case Nil
  then show ?case by (simp add: simplify_def unit_literals_def blocked_def)
next
  case (Cons cl cls)
  show ?case
  proof (cases "lit \<in> set cl")
    case True
    with Cons.prems have "reduce_unit lit cls acc q = Some (nc, q')" by simp
    from Cons.IH[OF this] True show ?thesis
      by (simp add: simplify_def blocked_def)
  next
    case False
    note nlit = this
    show ?thesis
    proof (cases "- lit \<in> set cl")
      case True
      let ?cl' = "removeAll (- lit) cl"
      from Cons.prems nlit True have ne: "?cl' \<noteq> []"
        by (auto simp: Let_def split: if_splits)
      show ?thesis
      proof (cases "length ?cl' = 1")
        case True
        with Cons.prems nlit \<open>- lit \<in> set cl\<close> ne
        have "reduce_unit lit cls (acc @ [?cl']) (q @ [hd ?cl']) = Some (nc, q')"
          by (simp add: Let_def)
        from Cons.IH[OF this] nlit \<open>- lit \<in> set cl\<close> ne True show ?thesis
          by (simp add: simplify_def blocked_def unit_literals_def)
      next
        case False
        with Cons.prems nlit \<open>- lit \<in> set cl\<close> ne
        have "reduce_unit lit cls (acc @ [?cl']) q = Some (nc, q')"
          by (simp add: Let_def)
        from Cons.IH[OF this] nlit \<open>- lit \<in> set cl\<close> ne False show ?thesis
          by (simp add: simplify_def blocked_def unit_literals_def)
      qed
    next
      case False
      with Cons.prems nlit
      have "reduce_unit lit cls (acc @ [cl]) q = Some (nc, q')" by simp
      from Cons.IH[OF this] nlit False show ?thesis
        by (simp add: simplify_def blocked_def)
    qed
  qed
qed

lemma branch_reduce_Some:
  "branch_reduce t opp cls acc = Some nc \<Longrightarrow>
     nc = acc @ simplify t opp cls \<and> \<not> blocked t opp cls"
proof (induction cls arbitrary: acc)
  case Nil
  then show ?case by (simp add: simplify_def blocked_def)
next
  case (Cons cl cls)
  consider (sat) "t \<in> set cl" | (cut) "t \<notin> set cl" "opp \<in> set cl" | (keep) "t \<notin> set cl" "opp \<notin> set cl"
    by blast
  then show ?case
  proof cases
    case sat
    with Cons.prems have "branch_reduce t opp cls acc = Some nc" by simp
    from Cons.IH[OF this] sat show ?thesis by (simp add: simplify_def blocked_def)
  next
    case cut
    with Cons.prems have ne: "removeAll opp cl \<noteq> []"
      and "branch_reduce t opp cls (acc @ [removeAll opp cl]) = Some nc"
      by (auto simp: Let_def split: if_splits)
    from Cons.IH[OF this(2)] cut ne show ?thesis by (simp add: simplify_def blocked_def)
  next
    case keep
    with Cons.prems have "branch_reduce t opp cls (acc @ [cl]) = Some nc" by simp
    from Cons.IH[OF this] keep show ?thesis by (simp add: simplify_def blocked_def)
  qed
qed

lemma reduce_unit_None:
  "reduce_unit lit cls acc q = None \<Longrightarrow> blocked lit (- lit) cls"
  by (induction cls arbitrary: acc q) (auto simp: blocked_def Let_def split: if_splits)

lemma branch_reduce_None:
  "branch_reduce t opp cls acc = None \<Longrightarrow> blocked t opp cls"
  by (induction cls arbitrary: acc) (auto simp: blocked_def Let_def split: if_splits)


lemma clause_true_removeAll: "clause_true m (removeAll x cl) \<Longrightarrow> clause_true m cl"
  by (auto simp: clause_true_def)

lemma clause_true_remdups [simp]: "clause_true m (remdups cl) = clause_true m cl"
  by (simp add: clause_true_def)

lemma simplify_sound:
  assumes "\<forall>cl \<in> set (simplify t opp cls). clause_true m cl" "lit_true m t" "cl \<in> set cls"
  shows "clause_true m cl"
proof (cases "t \<in> set cl")
  case True
  with assms(2) show ?thesis by (auto simp: clause_true_def)
next
  case False
  with assms(3) have "removeAll opp cl \<in> set (simplify t opp cls)"
    by (auto simp: simplify_def)
  with assms(1) show ?thesis by (blast intro: clause_true_removeAll)
qed

lemma nonzero_simplify: "nonzero cls \<Longrightarrow> nonzero (simplify t opp cls)"
  by (auto simp: nonzero_def simplify_def)

lemma unit_literals_subset: "set (unit_literals cls) \<subseteq> \<Union> (set ` set cls)"
proof
  fix l assume "l \<in> set (unit_literals cls)"
  then obtain cl where "cl \<in> set cls" "length cl = 1" "l = hd cl"
    by (auto simp: unit_literals_def)
  moreover from this have "hd cl \<in> set cl"
    by (intro hd_in_set) auto
  ultimately show "l \<in> \<Union> (set ` set cls)"
    by blast
qed

lemma nonzero_unit_literals: "nonzero cls \<Longrightarrow> 0 \<notin> set (unit_literals cls)"
  using unit_literals_subset[of cls] by (auto simp: nonzero_def)

lemma agrees_update:
  assumes "agrees m (a[i := v])" "i < length a" "a ! i \<noteq> 1" "a ! i \<noteq> - 1"
  shows "agrees m a"
  unfolding agrees_def
proof (intro conjI allI impI)
  from assms(1) show "length m = length a" by (simp add: agrees_def)
next
  fix j assume j: "j < length a" "a ! j = 1 \<or> a ! j = - 1"
  with assms(3,4) have "j \<noteq> i" by auto
  with j assms(1) show "m ! j = a ! j"
    by (auto simp: agrees_def)
qed

lemma agrees_update_lit:
  assumes "agrees m (a[nat \<bar>l\<bar> := polarity l])" "nat \<bar>l\<bar> < length a" "l \<noteq> 0"
  shows "lit_true m l"
proof -
  from assms(1,2) have "length m = length a" "m ! nat \<bar>l\<bar> = polarity l"
    by (auto simp: agrees_def polarity_def)
  with assms(2,3) show ?thesis
    by (cases "0 < l") (auto simp: lit_true_def polarity_def abs_if)
qed

lemma ternary_update: "ternary a \<Longrightarrow> v \<in> {- 1, 0, 1} \<Longrightarrow> ternary (a[i := v])"
  unfolding ternary_def using set_update_subset_insert[of a i v] by auto

lemma unit_propagate_sound:
  assumes "unit_propagate cls a q = Inr (Some (cls', a'))" "nonzero cls" "0 \<notin> set q" "ternary a"
  shows "nonzero cls' \<and> ternary a' \<and>
         (\<forall>m. agrees m a' \<and> (\<forall>cl \<in> set cls'. clause_true m cl)
               \<longrightarrow> agrees m a \<and> (\<forall>cl \<in> set cls. clause_true m cl))"
  using assms
proof (induction cls a q rule: unit_propagate.induct)
  case (1 clauses assignment unit_queue)
  let ?lit = "last unit_queue"
  let ?var = "nat \<bar>?lit\<bar>"
  from "1.prems"(3) have bl0: "0 \<notin> set (butlast unit_queue)"
    by (auto dest: in_set_butlastD)
  from "1.prems"(1) show ?case
  proof (cases rule: unit_propagate_cases)
    case empty
    with "1.prems" show ?thesis by simp
  next
    case skip
    from "1.IH"(1)[OF skip(1) _ skip(3,4,5) "1.prems"(2) bl0 "1.prems"(4)] skip(2)
    show ?thesis by simp
  next
    case (assign new_clauses unit_queue')
    from assign(1) have "?lit \<in> set unit_queue" by (rule last_in_set)
    with "1.prems"(3) have lit0: "?lit \<noteq> 0" by auto
    from reduce_unit_Some[OF assign(5)]
    have nc: "new_clauses = simplify ?lit (- ?lit) clauses"
      and q': "unit_queue' = butlast unit_queue
                 @ unit_literals (simplify ?lit (- ?lit) [cl \<leftarrow> clauses. - ?lit \<in> set cl])"
      by simp_all
    have nz: "nonzero new_clauses"
      unfolding nc using "1.prems"(2) by (rule nonzero_simplify)
    have "nonzero (simplify ?lit (- ?lit) [cl \<leftarrow> clauses. - ?lit \<in> set cl])"
      using "1.prems"(2) by (intro nonzero_simplify) (auto simp: nonzero_def)
    then have q0: "0 \<notin> set unit_queue'"
      unfolding q' using bl0 by (auto dest: nonzero_unit_literals)
    have tern: "ternary (assignment[?var := polarity ?lit])"
      using "1.prems"(4) by (intro ternary_update) (auto simp: polarity_def)
    from assign(3,4) have undec: "assignment ! ?var \<noteq> 1" "assignment ! ?var \<noteq> - 1"
      by (auto simp: polarity_def split: if_splits)
    have ih: "nonzero cls' \<and> ternary a' \<and>
       (\<forall>m. agrees m a' \<and> (\<forall>cl \<in> set cls'. clause_true m cl)
             \<longrightarrow> agrees m (assignment[?var := polarity ?lit])
                 \<and> (\<forall>cl \<in> set new_clauses. clause_true m cl))"
      using "1.IH"(2)[OF assign(1) _ assign(3,4,5) refl assign(6) nz q0 tern] assign(2) by simp
    show ?thesis
    proof (intro conjI allI impI)
      from ih show "nonzero cls'" "ternary a'" by simp_all
    next
      fix m assume m: "agrees m a' \<and> (\<forall>cl \<in> set cls'. clause_true m cl)"
      with ih have ag: "agrees m (assignment[?var := polarity ?lit])"
        and tr: "\<forall>cl \<in> set (simplify ?lit (- ?lit) clauses). clause_true m cl"
        unfolding nc by blast+
      from ag assign(2) undec show "agrees m assignment" by (rule agrees_update)
      from ag assign(2) lit0 have "lit_true m ?lit" by (rule agrees_update_lit)
      with tr show "\<forall>cl \<in> set clauses. clause_true m cl"
        by (blast intro: simplify_sound)
    qed
  qed
qed


lemma fill_step_nth:
  assumes "i < length a" "0 \<le> j"
  shows "(if a ! nat j = 0 then a[nat j := - 1] else a) ! i
           = (if j = int i \<and> a ! i = 0 then - 1 else a ! i)"
proof (cases "nat j = i")
  case True
  with assms show ?thesis by auto
next
  case False
  with assms have "j \<noteq> int i" by auto
  with False show ?thesis by simp
qed

lemma fill_fold_length:
  "length (foldl (\<lambda>model i. if model ! nat i = 0 then model[nat i := - 1] else model) a js)
     = length a"
  by (induction js arbitrary: a) auto

lemma fill_fold_nth:
  assumes "\<forall>j \<in> set js. 0 \<le> j" "i < length a"
  shows "foldl (\<lambda>model i. if model ! nat i = 0 then model[nat i := - 1] else model) a js ! i
           = (if int i \<in> set js \<and> a ! i = 0 then - 1 else a ! i)"
  using assms
proof (induction js arbitrary: a)
  case Nil
  then show ?case by simp
next
  case (Cons j js)
  let ?a = "if a ! nat j = 0 then a[nat j := - 1] else a"
  from Cons.prems have j: "0 \<le> j" and js: "\<forall>j \<in> set js. 0 \<le> j" by simp_all
  have len: "i < length ?a" using Cons.prems(2) by simp
  have step: "?a ! i = (if j = int i \<and> a ! i = 0 then - 1 else a ! i)"
    using Cons.prems(2) j by (rule fill_step_nth)
  from Cons.IH[OF js len] step show ?case
    by (auto simp del: nth_list_update)
qed

lemma fill_model_length [simp]: "length (fill_model a n) = length a"
  by (simp add: fill_model_def fill_fold_length)

lemma fill_model_nth:
  "i < length a \<Longrightarrow>
     fill_model a n ! i = (if 1 \<le> int i \<and> int i \<le> n \<and> a ! i = 0 then - 1 else a ! i)"
  unfolding fill_model_def by (subst fill_fold_nth) auto

lemma fill_model_agrees: "agrees (fill_model a n) a"
  by (auto simp: agrees_def fill_model_nth)

lemma fill_model_total:
  assumes "ternary a" "indices_ok a n" "1 \<le> i" "i \<le> n"
  shows "fill_model a n ! nat i = 1 \<or> fill_model a n ! nat i = - 1"
proof -
  from assms(2,3,4) have lt: "nat i < length a" by (auto simp: indices_ok_def)
  then have "a ! nat i \<in> set a" by simp
  with assms(1) have "a ! nat i \<in> {- 1, 0, 1}" by (auto simp: ternary_def)
  with lt assms(3,4) show ?thesis by (auto simp: fill_model_nth)
qed

lemma branch_sound:
  assumes ag: "agrees m (a[nat v := polarity t])" and v: "nat v < length a" "a ! nat v = 0" "1 \<le> v"
    and t: "t = v \<or> t = - v"
    and tr: "\<forall>cl \<in> set (simplify t opp cls). clause_true m cl"
  shows "agrees m a \<and> (\<forall>cl \<in> set cls. clause_true m cl)"
proof -
  from t v(3) have abs: "nat \<bar>t\<bar> = nat v" and t0: "t \<noteq> 0" by auto
  from ag v(1,2) have "agrees m a" by (intro agrees_update[OF ag]) auto
  moreover from ag v(1) abs t0 have "lit_true m t"
    by (intro agrees_update_lit) auto
  with tr have "\<forall>cl \<in> set cls. clause_true m cl" by (blast intro: simplify_sound)
  ultimately show ?thesis by simp
qed


lemma dpll_True_cases:
  assumes "dpll cls a lc n = Inr (True, mo)"
  obtains
    (leaf) a' where
      "unit_propagate (map remdups cls) a (unit_literals (map remdups cls)) = Inr (Some ([], a'))"
      "indices_ok a' n" "mo = Some (fill_model a' n)"
  | (first) cls' a' nc where
      "unit_propagate (map remdups cls) a (unit_literals (map remdups cls)) = Inr (Some (cls', a'))"
      "indices_ok a' n" "cls' \<noteq> []" "unassigned_vars a' n \<noteq> []"
      "branch_reduce (choose_var lc (unassigned_vars a' n))
         (- choose_var lc (unassigned_vars a' n)) cls' [] = Some nc"
      "dpll nc (a'[nat (choose_var lc (unassigned_vars a' n)) := 1]) lc n = Inr (True, mo)"
  | (second) cls' a' nc x where
      "unit_propagate (map remdups cls) a (unit_literals (map remdups cls)) = Inr (Some (cls', a'))"
      "indices_ok a' n" "cls' \<noteq> []" "unassigned_vars a' n \<noteq> []"
      "(case branch_reduce (choose_var lc (unassigned_vars a' n))
               (- choose_var lc (unassigned_vars a' n)) cls' [] of
          None \<Rightarrow> Inr (False, None)
        | Some new_clauses \<Rightarrow>
            dpll new_clauses (a'[nat (choose_var lc (unassigned_vars a' n)) := 1]) lc n)
         = Inr (False, x)"
      "branch_reduce (- choose_var lc (unassigned_vars a' n))
         (choose_var lc (unassigned_vars a' n)) cls' [] = Some nc"
      "dpll nc (a'[nat (choose_var lc (unassigned_vars a' n)) := - 1]) lc n = Inr (True, mo)"
proof -
  from assms obtain cls' a' where
    up: "unit_propagate (map remdups cls) a (unit_literals (map remdups cls)) = Inr (Some (cls', a'))"
    and ok: "indices_ok a' n"
    by (subst (asm) dpll.simps) (auto split: sum.splits option.splits if_splits)
  show thesis
  proof (cases "cls' = []")
    case True
    with assms up ok leaf show ?thesis
      by (subst (asm) dpll.simps) simp
  next
    case False
    note ne = this
    let ?v = "choose_var lc (unassigned_vars a' n)"
    let ?first = "case branch_reduce ?v (- ?v) cls' [] of
          None \<Rightarrow> Inr (False, None)
        | Some new_clauses \<Rightarrow> dpll new_clauses (a'[nat ?v := 1]) lc n"
    let ?second = "case branch_reduce (- ?v) ?v cls' [] of
          None \<Rightarrow> Inr (False, None)
        | Some new_clauses \<Rightarrow>
            (case dpll new_clauses (a'[nat ?v := - 1]) lc n of
               Inl e \<Rightarrow> Inl e
             | Inr (True, model) \<Rightarrow> Inr (True, model)
             | Inr (False, _) \<Rightarrow> Inr (False, None))"
    from assms up ok ne have un: "unassigned_vars a' n \<noteq> []"
      and res: "(case ?first of Inl e \<Rightarrow> Inl e | Inr (True, model) \<Rightarrow> Inr (True, model)
                 | Inr (False, _) \<Rightarrow> ?second) = Inr (True, mo)"
      by (subst (asm) dpll.simps, simp split: if_splits)+
    show ?thesis
    proof (cases ?first)
      case (Inl e)
      with res show ?thesis by simp
    next
      case (Inr r)
      obtain b x where r: "r = (b, x)" by (cases r)
      show ?thesis
      proof (cases b)
        case True
        with Inr r res have x: "x = mo" by simp
        from Inr r True x obtain nc where "branch_reduce ?v (- ?v) cls' [] = Some nc"
          "dpll nc (a'[nat ?v := 1]) lc n = Inr (True, mo)"
          by (auto split: option.splits)
        with up ok ne un first show ?thesis by blast
      next
        case False
        with Inr r res have sec: "?second = Inr (True, mo)" by simp
        then obtain nc where br: "branch_reduce (- ?v) ?v cls' [] = Some nc"
          and "(case dpll nc (a'[nat ?v := - 1]) lc n of
               Inl e \<Rightarrow> Inl e
             | Inr (True, model) \<Rightarrow> Inr (True, model)
             | Inr (False, _) \<Rightarrow> Inr (False, None)) = Inr (True, mo)"
          by (auto split: option.splits)
        then have "dpll nc (a'[nat ?v := - 1]) lc n = Inr (True, mo)"
          by (auto split: sum.splits prod.splits bool.splits)
        moreover have "?first = Inr (False, x)" using Inr r False by simp
        ultimately show ?thesis using up ok ne un br by (intro second)
      qed
    qed
  qed
qed

lemma nonzero_remdups: "nonzero cls \<Longrightarrow> nonzero (map remdups cls)"
  by (auto simp: nonzero_def)

lemma dpll_sound:
  assumes "dpll cls a lc n = Inr (True, mo)" "nonzero cls" "ternary a"
  shows "\<exists>m. mo = Some m \<and> agrees m a \<and> (\<forall>cl \<in> set cls. clause_true m cl)
             \<and> (\<forall>i. 1 \<le> i \<and> i \<le> n \<longrightarrow> m ! nat i = 1 \<or> m ! nat i = - 1)"
  using assms
proof (induction cls a lc n arbitrary: mo rule: dpll.induct)
  case (1 clauses assignment literal_counts num_vars)
  have nz: "nonzero (map remdups clauses)"
    using "1.prems"(2) by (rule nonzero_remdups)
  then have q0: "0 \<notin> set (unit_literals (map remdups clauses))"
    by (rule nonzero_unit_literals)
  have lift: "agrees m assignment \<and> (\<forall>cl \<in> set clauses. clause_true m cl)"
    if up: "unit_propagate (map remdups clauses) assignment (unit_literals (map remdups clauses))
          = Inr (Some (cls', a'))"
      and m: "agrees m a' \<and> (\<forall>cl \<in> set cls'. clause_true m cl)"
    for cls' a' m
  proof -
    from unit_propagate_sound[OF up nz q0 "1.prems"(3)] m
    have "agrees m assignment" and "\<forall>cl \<in> set (map remdups clauses). clause_true m cl"
      by blast+
    then show ?thesis by simp
  qed
  from "1.prems"(1) show ?case
  proof (cases rule: dpll_True_cases)
    case (leaf a')
    from unit_propagate_sound[OF leaf(1) nz q0 "1.prems"(3)] have tern: "ternary a'" by simp
    have "agrees (fill_model a' num_vars) assignment
          \<and> (\<forall>cl \<in> set clauses. clause_true (fill_model a' num_vars) cl)"
      using leaf(1) by (rule lift) (simp add: fill_model_agrees)
    with leaf(3) fill_model_total[OF tern leaf(2)] show ?thesis by simp
  next
    case (first cls' a' nc)
    let ?v = "choose_var literal_counts (unassigned_vars a' num_vars)"
    from unit_propagate_sound[OF first(1) nz q0 "1.prems"(3)]
    have nz': "nonzero cls'" and tern: "ternary a'" by simp_all
    from branch_reduce_Some[OF first(5)] have nc: "nc = simplify ?v (- ?v) cls'" by simp
    have "nonzero nc" unfolding nc using nz' by (rule nonzero_simplify)
    moreover have "ternary (a'[nat ?v := 1])" using tern by (rule ternary_update) simp
    ultimately obtain m where m: "mo = Some m" "agrees m (a'[nat ?v := 1])"
      "\<forall>cl \<in> set nc. clause_true m cl"
      "\<forall>i. 1 \<le> i \<and> i \<le> num_vars \<longrightarrow> m ! nat i = 1 \<or> m ! nat i = - 1"
      using "1.IH"(1)[OF first(1) refl refl _ first(3,4,5,6)] first(2) by auto
    note cv = choose_var_unassigned[OF first(4,2), of literal_counts]
    from cv(3) have pol: "polarity ?v = 1" by (simp add: polarity_def)
    have "agrees m a' \<and> (\<forall>cl \<in> set cls'. clause_true m cl)"
      using m(2,3) cv(1,2,3) unfolding nc
      by (intro branch_sound[where t = ?v and v = ?v and opp = "- ?v"]) (simp_all add: pol)
    with lift[OF first(1)] m(1,4) show ?thesis by blast
  next
    case (second cls' a' nc x)
    let ?v = "choose_var literal_counts (unassigned_vars a' num_vars)"
    from unit_propagate_sound[OF second(1) nz q0 "1.prems"(3)]
    have nz': "nonzero cls'" and tern: "ternary a'" by simp_all
    from branch_reduce_Some[OF second(6)] have nc: "nc = simplify (- ?v) ?v cls'" by simp
    have "nonzero nc" unfolding nc using nz' by (rule nonzero_simplify)
    moreover have "ternary (a'[nat ?v := - 1])" using tern by (rule ternary_update) simp
    ultimately obtain m where m: "mo = Some m" "agrees m (a'[nat ?v := - 1])"
      "\<forall>cl \<in> set nc. clause_true m cl"
      "\<forall>i. 1 \<le> i \<and> i \<le> num_vars \<longrightarrow> m ! nat i = 1 \<or> m ! nat i = - 1"
      using "1.IH"(2)[OF second(1) refl refl _ second(3,4,5) refl refl second(6,7)] second(2)
      by auto
    note cv = choose_var_unassigned[OF second(4,2), of literal_counts]
    from cv(3) have pol: "polarity (- ?v) = - 1" by (simp add: polarity_def)
    have "agrees m a' \<and> (\<forall>cl \<in> set cls'. clause_true m cl)"
      using m(2,3) cv(1,2,3) unfolding nc
      by (intro branch_sound[where t = "- ?v" and v = ?v and opp = ?v]) (simp_all add: pol)
    with lift[OF second(1)] m(1,4) show ?thesis by blast
  qed
qed


lemma holds_not_both: "holds v l \<Longrightarrow> \<not> holds v (- l)"
  by (auto simp: holds_def)

lemma satisfies_remdups [simp]: "satisfies v (map remdups cls) = satisfies v cls"
  by (simp add: satisfies_def)

lemma well_formed_remdups: "well_formed cls n \<Longrightarrow> well_formed (map remdups cls) n"
  by (simp add: well_formed_def)

lemma fresh_remdups: "fresh cls a \<Longrightarrow> fresh (map remdups cls) a"
  by (simp add: fresh_def)

lemma well_formed_simplify: "well_formed cls n \<Longrightarrow> well_formed (simplify t opp cls) n"
  by (auto simp: well_formed_def simplify_def)

lemma well_formed_nonzero: "well_formed cls n \<Longrightarrow> nonzero cls"
  by (auto simp: well_formed_def nonzero_def)

lemma satisfies_simplify:
  assumes "satisfies v cls" "holds v t"
  shows "satisfies v (simplify t (- t) cls)"
  unfolding satisfies_def
proof
  fix cl' assume "cl' \<in> set (simplify t (- t) cls)"
  then obtain cl where cl: "cl \<in> set cls" "cl' = removeAll (- t) cl"
    by (auto simp: simplify_def)
  with assms(1) obtain l where l: "l \<in> set cl" "holds v l"
    by (auto simp: satisfies_def)
  with assms(2) have "l \<noteq> - t" using holds_not_both by blast
  with l cl show "\<exists>l \<in> set cl'. holds v l" by auto
qed

lemma simplify_satisfies:
  assumes "satisfies v (simplify t opp cls)" "holds v t"
  shows "satisfies v cls"
  unfolding satisfies_def
proof
  fix cl assume cl: "cl \<in> set cls"
  show "\<exists>l \<in> set cl. holds v l"
  proof (cases "t \<in> set cl")
    case True
    with assms(2) show ?thesis by blast
  next
    case False
    with cl have "removeAll opp cl \<in> set (simplify t opp cls)"
      by (auto simp: simplify_def)
    with assms(1) obtain l where "l \<in> set (removeAll opp cl)" "holds v l"
      unfolding satisfies_def by blast
    then show ?thesis by auto
  qed
qed

lemma blocked_unsat:
  assumes "blocked t (- t) cls" "holds v t"
  shows "\<not> satisfies v cls"
proof
  assume sat: "satisfies v cls"
  from assms(1) obtain cl where cl: "cl \<in> set cls" "removeAll (- t) cl = []"
    by (auto simp: blocked_def)
  from cl(2) have "set cl \<subseteq> {- t}"
    by (metis empty_set set_removeAll Diff_eq_empty_iff)
  moreover from sat cl(1) obtain l where "l \<in> set cl" "holds v l"
    by (auto simp: satisfies_def)
  ultimately have "holds v (- t)" by auto
  with assms(2) show False using holds_not_both by blast
qed

lemma consistent_update:
  assumes "consistent v a" "holds v t"
  shows "consistent v (a[nat \<bar>t\<bar> := polarity t])"
  unfolding consistent_def
proof (intro allI impI)
  fix i assume i: "i < length (a[nat \<bar>t\<bar> := polarity t])"
  show "((a[nat \<bar>t\<bar> := polarity t]) ! i = 1 \<longrightarrow> v (int i))
      \<and> ((a[nat \<bar>t\<bar> := polarity t]) ! i = - 1 \<longrightarrow> \<not> v (int i))"
  proof (cases "i = nat \<bar>t\<bar>")
    case True
    with i assms(2) show ?thesis
      by (auto simp: holds_def polarity_def)
  next
    case False
    with i assms(1) show ?thesis by (simp add: consistent_def)
  qed
qed

lemma update_consistent:
  assumes "consistent v (a[i := p])" "a ! i \<noteq> 1" "a ! i \<noteq> - 1"
  shows "consistent v a"
  unfolding consistent_def
proof (intro allI impI)
  fix j assume j: "j < length a"
  show "(a ! j = 1 \<longrightarrow> v (int j)) \<and> (a ! j = - 1 \<longrightarrow> \<not> v (int j))"
  proof (cases "j = i")
    case True
    with assms(2,3) show ?thesis by simp
  next
    case False
    with j assms(1) show ?thesis by (auto simp: consistent_def)
  qed
qed

lemma update_consistent_holds:
  assumes "consistent v (a[nat \<bar>t\<bar> := polarity t])" "nat \<bar>t\<bar> < length a" "t \<noteq> 0"
  shows "holds v t"
proof -
  from assms(1,2) have "(polarity t = 1 \<longrightarrow> v (int (nat \<bar>t\<bar>)))
      \<and> (polarity t = - 1 \<longrightarrow> \<not> v (int (nat \<bar>t\<bar>)))"
    unfolding consistent_def by (metis length_list_update nth_list_update_eq)
  with assms(3) show ?thesis
    by (cases "0 < t") (auto simp: holds_def polarity_def)
qed

lemma fresh_simplify:
  assumes "fresh cls a" "t \<noteq> 0"
  shows "fresh (simplify t (- t) cls) (a[nat \<bar>t\<bar> := p])"
  unfolding fresh_def
proof (intro ballI)
  fix cl' l assume "cl' \<in> set (simplify t (- t) cls)" "l \<in> set cl'"
  then obtain cl where cl: "cl \<in> set cls" "t \<notin> set cl" "l \<in> set cl" "l \<noteq> - t"
    by (auto simp: simplify_def)
  then have "l \<noteq> t" by auto
  with cl(4) have "nat \<bar>l\<bar> \<noteq> nat \<bar>t\<bar>" by auto
  moreover from assms(1) cl have "a ! nat \<bar>l\<bar> = 0" by (auto simp: fresh_def)
  ultimately show "(a[nat \<bar>t\<bar> := p]) ! nat \<bar>l\<bar> = 0" by simp
qed

lemma unit_literal_entailed:
  assumes "l \<in> set (unit_literals cls)" "set cls \<subseteq> set cls'"
  shows "entailed cls' a l"
proof -
  from assms(1) obtain cl where cl: "cl \<in> set cls" "length cl = 1" "l = hd cl"
    by (auto simp: unit_literals_def)
  from cl(2,3) have "cl = [l]" by (cases cl) auto
  with cl(1) assms(2) have "[l] \<in> set cls'" by auto
  then show ?thesis
    unfolding entailed_def satisfies_def by fastforce
qed


lemma unit_propagate_conflict:
  assumes "unit_queue \<noteq> []" "nat \<bar>last unit_queue\<bar> < length assignment"
    and "assignment ! nat \<bar>last unit_queue\<bar> = - polarity (last unit_queue)"
  shows "unit_propagate clauses assignment unit_queue = Inr None"
  using assms by (subst unit_propagate.simps) simp

lemma unit_propagate_complete:
  assumes "well_formed cls n" "fresh cls a" "length a = nat (n + 1)"
    and "\<forall>l \<in> set q. l \<noteq> 0 \<and> \<bar>l\<bar> \<le> n \<and> entailed cls a l"
  shows "(\<exists>cls' a'. unit_propagate cls a q = Inr (Some (cls', a'))
            \<and> well_formed cls' n \<and> fresh cls' a'
            \<and> (\<forall>v. consistent v a \<and> satisfies v cls \<longrightarrow> consistent v a' \<and> satisfies v cls'))
       \<or> (unit_propagate cls a q = Inr None \<and> \<not> (\<exists>v. consistent v a \<and> satisfies v cls))"
  using assms
proof (induction cls a q rule: unit_propagate.induct)
  case (1 clauses assignment unit_queue)
  let ?lit = "last unit_queue"
  let ?var = "nat \<bar>?lit\<bar>"
  let ?pol = "polarity ?lit"
  show ?case
  proof (cases "unit_queue = []")
    case True
    with "1.prems"(1,2) show ?thesis by (simp add: unit_propagate_empty)
  next
    case False
    note ne = this
    then have "?lit \<in> set unit_queue" by (rule last_in_set)
    with "1.prems"(4) have lit0: "?lit \<noteq> 0" and rng: "\<bar>?lit\<bar> \<le> n"
      and ent: "entailed clauses assignment ?lit" by auto
    from rng "1.prems"(3) have lt: "?var < length assignment" by auto
    have rest: "\<forall>l \<in> set (butlast unit_queue). l \<noteq> 0 \<and> \<bar>l\<bar> \<le> n \<and> entailed clauses assignment l"
      using "1.prems"(4) by (auto dest: in_set_butlastD)
    consider (conflict) "assignment ! ?var = - ?pol"
      | (skip) "assignment ! ?var \<noteq> - ?pol" "assignment ! ?var = ?pol"
      | (assign) "assignment ! ?var \<noteq> - ?pol" "assignment ! ?var \<noteq> ?pol"
      by blast
    then show ?thesis
    proof cases
      case conflict
      have "\<not> (consistent v assignment \<and> satisfies v clauses)" for v
      proof
        assume v: "consistent v assignment \<and> satisfies v clauses"
        with ent have "holds v ?lit" by (auto simp: entailed_def)
        moreover from v lt conflict have "(?pol = - 1 \<longrightarrow> v (int ?var)) \<and> (?pol = 1 \<longrightarrow> \<not> v (int ?var))"
          by (auto simp: consistent_def)
        ultimately show False
          by (auto simp: holds_def polarity_def split: if_splits)
      qed
      with unit_propagate_conflict[OF ne lt conflict] show ?thesis by blast
    next
      case skip
      from ne lt skip(2) have "unit_propagate clauses assignment unit_queue
          = unit_propagate clauses assignment (butlast unit_queue)"
        by (rule unit_propagate_skip)
      with "1.IH"(1)[OF ne _ skip "1.prems"(1,2,3) rest] lt show ?thesis by simp
    next
      case assign
      from assign have undec: "assignment ! ?var \<noteq> 1" "assignment ! ?var \<noteq> - 1"
        by (auto simp: polarity_def split: if_splits)
      note unfold = unit_propagate_assign[OF ne lt assign(2,1), of clauses]
      show ?thesis
      proof (cases "reduce_unit ?lit clauses [] (butlast unit_queue)")
        case None
        then have "blocked ?lit (- ?lit) clauses" by (rule reduce_unit_None)
        then have "\<not> (consistent v assignment \<and> satisfies v clauses)" for v
          using ent blocked_unsat[of ?lit clauses v] by (auto simp: entailed_def)
        with unfold None show ?thesis by simp
      next
        case (Some r)
        obtain nc q' where r: "r = (nc, q')" by (cases r)
        let ?a = "assignment[?var := ?pol]"
        from reduce_unit_Some[OF Some[unfolded r]]
        have nc: "nc = simplify ?lit (- ?lit) clauses"
          and q': "q' = butlast unit_queue
                 @ unit_literals (simplify ?lit (- ?lit) [cl \<leftarrow> clauses. - ?lit \<in> set cl])"
          by simp_all
        have wf: "well_formed nc n"
          unfolding nc using "1.prems"(1) by (rule well_formed_simplify)
        have fr: "fresh nc ?a"
          unfolding nc using "1.prems"(2) lit0 by (rule fresh_simplify)
        have len: "length ?a = nat (n + 1)" using "1.prems"(3) by simp
        have down: "consistent v assignment \<and> satisfies v clauses"
          if "consistent v ?a \<and> satisfies v nc" for v
        proof -
          from that have c: "consistent v ?a" and s: "satisfies v (simplify ?lit (- ?lit) clauses)"
            unfolding nc by simp_all
          from c lt lit0 have "holds v ?lit" by (rule update_consistent_holds)
          with s have "satisfies v clauses" by (rule simplify_satisfies)
          moreover from c undec have "consistent v assignment" by (rule update_consistent)
          ultimately show ?thesis by simp
        qed
        have up: "consistent v ?a \<and> satisfies v nc"
          if "consistent v assignment \<and> satisfies v clauses" for v
        proof -
          from that ent have h: "holds v ?lit" by (auto simp: entailed_def)
          from that h have "consistent v ?a" by (intro consistent_update) simp_all
          moreover from that h have "satisfies v nc"
            unfolding nc by (intro satisfies_simplify) simp_all
          ultimately show ?thesis by simp
        qed
        have qinv: "\<forall>l \<in> set q'. l \<noteq> 0 \<and> \<bar>l\<bar> \<le> n \<and> entailed nc ?a l"
        proof
          fix l assume "l \<in> set q'"
          then consider (old) "l \<in> set (butlast unit_queue)"
            | (new) "l \<in> set (unit_literals (simplify ?lit (- ?lit) [cl \<leftarrow> clauses. - ?lit \<in> set cl]))"
            unfolding q' by auto
          then show "l \<noteq> 0 \<and> \<bar>l\<bar> \<le> n \<and> entailed nc ?a l"
          proof cases
            case old
            with rest have l: "l \<noteq> 0" "\<bar>l\<bar> \<le> n" and e: "entailed clauses assignment l"
              by auto
            from e down have "entailed nc ?a l" unfolding entailed_def by blast
            with l show ?thesis by simp
          next
            case new
            have sub: "set (simplify ?lit (- ?lit) [cl \<leftarrow> clauses. - ?lit \<in> set cl]) \<subseteq> set nc"
              unfolding nc by (auto simp: simplify_def)
            from new have "entailed nc ?a l" using sub by (rule unit_literal_entailed)
            moreover from new unit_literals_subset[of "simplify ?lit (- ?lit) [cl \<leftarrow> clauses. - ?lit \<in> set cl]"] sub
            obtain cl where "cl \<in> set nc" "l \<in> set cl"
              by blast
            with wf have "l \<noteq> 0" "\<bar>l\<bar> \<le> n" by (auto simp: well_formed_def)
            ultimately show ?thesis by simp
          qed
        qed
        have eq: "unit_propagate clauses assignment unit_queue = unit_propagate nc ?a q'"
          using unfold Some r by simp
        from "1.IH"(2)[OF ne _ assign Some[unfolded r] refl wf fr len qinv] lt
        consider (some) cls' a' where "unit_propagate nc ?a q' = Inr (Some (cls', a'))"
            "well_formed cls' n" "fresh cls' a'"
            "\<forall>v. consistent v ?a \<and> satisfies v nc \<longrightarrow> consistent v a' \<and> satisfies v cls'"
          | (none) "unit_propagate nc ?a q' = Inr None"
            "\<not> (\<exists>v. consistent v ?a \<and> satisfies v nc)"
          by auto
        then show ?thesis
        proof cases
          case some
          from some(4) up
          have "\<forall>v. consistent v assignment \<and> satisfies v clauses
                  \<longrightarrow> consistent v a' \<and> satisfies v cls'"
            by blast
          with some(1,2,3) eq show ?thesis by simp
        next
          case none
          from none(2) up have "\<not> (\<exists>v. consistent v assignment \<and> satisfies v clauses)"
            by blast
          with none(1) eq show ?thesis by simp
        qed
      qed
    qed
  qed
qed


lemma dpll_conflict:
  "unit_propagate (map remdups cls) a (unit_literals (map remdups cls)) = Inr None
   \<Longrightarrow> dpll cls a lc n = Inr (False, None)"
  by (subst dpll.simps) simp

lemma dpll_leaf:
  "unit_propagate (map remdups cls) a (unit_literals (map remdups cls)) = Inr (Some ([], a'))
   \<Longrightarrow> indices_ok a' n \<Longrightarrow> dpll cls a lc n = Inr (True, Some (fill_model a' n))"
  by (subst dpll.simps) simp

lemma dpll_stuck:
  "unit_propagate (map remdups cls) a (unit_literals (map remdups cls)) = Inr (Some (cls', a'))
   \<Longrightarrow> indices_ok a' n \<Longrightarrow> cls' \<noteq> [] \<Longrightarrow> unassigned_vars a' n = []
   \<Longrightarrow> dpll cls a lc n = Inr (False, None)"
  by (subst dpll.simps) simp

lemma dpll_branch:
  assumes "unit_propagate (map remdups cls) a (unit_literals (map remdups cls))
             = Inr (Some (cls', a'))"
    and "indices_ok a' n" "cls' \<noteq> []" "unassigned_vars a' n \<noteq> []"
  shows "dpll cls a lc n =
     (case
        (case branch_reduce (choose_var lc (unassigned_vars a' n))
                (- choose_var lc (unassigned_vars a' n)) cls' [] of
           None \<Rightarrow> Inr (False, None)
         | Some new_clauses \<Rightarrow>
             dpll new_clauses (a'[nat (choose_var lc (unassigned_vars a' n)) := 1]) lc n)
      of
        Inl e \<Rightarrow> Inl e
      | Inr (True, model) \<Rightarrow> Inr (True, model)
      | Inr (False, _) \<Rightarrow>
          (case branch_reduce (- choose_var lc (unassigned_vars a' n))
                  (choose_var lc (unassigned_vars a' n)) cls' [] of
             None \<Rightarrow> Inr (False, None)
           | Some new_clauses \<Rightarrow>
               (case dpll new_clauses
                       (a'[nat (choose_var lc (unassigned_vars a' n)) := - 1]) lc n of
                  Inl e \<Rightarrow> Inl e
                | Inr (True, model) \<Rightarrow> Inr (True, model)
                | Inr (False, _) \<Rightarrow> Inr (False, None))))"
  using assms by (subst dpll.simps) simp

lemma stuck_unsat:
  assumes "well_formed cls n" "fresh cls a" "cls \<noteq> []" "unassigned_vars a n = []"
  shows "\<not> satisfies v cls"
proof
  assume sat: "satisfies v cls"
  from assms(3) obtain cl where cl: "cl \<in> set cls" by (cases cls) auto
  with sat obtain l where l: "l \<in> set cl" by (auto simp: satisfies_def)
  with cl assms(1,2) have "l \<noteq> 0" "\<bar>l\<bar> \<le> n" "a ! nat \<bar>l\<bar> = 0"
    by (auto simp: well_formed_def fresh_def)
  then have "\<bar>l\<bar> \<in> set (unassigned_vars a n)"
    by (auto simp: unassigned_vars_def)
  with assms(4) show False by simp
qed

lemma round_unsat:
  assumes t: "t \<noteq> 0" "nat \<bar>t\<bar> < length a"
    and no: "\<not> (\<exists>w. consistent w (a[nat \<bar>t\<bar> := polarity t]) \<and> satisfies w (simplify t (- t) cls))"
  shows "\<not> (\<exists>w. holds w t \<and> consistent w a \<and> satisfies w cls)"
proof
  assume "\<exists>w. holds w t \<and> consistent w a \<and> satisfies w cls"
  then obtain w where w: "holds w t" "consistent w a" "satisfies w cls" by blast
  from w(2,1) have "consistent w (a[nat \<bar>t\<bar> := polarity t])" by (rule consistent_update)
  moreover from w(3,1) have "satisfies w (simplify t (- t) cls)" by (rule satisfies_simplify)
  ultimately show False using no by blast
qed


lemma round_complete:
  assumes wf: "well_formed cls n" and fr: "fresh cls a" and len: "length a = nat (n + 1)"
    and t: "t \<noteq> 0" "\<bar>t\<bar> \<le> n"
    and IH: "\<And>nc. branch_reduce t (- t) cls [] = Some nc \<Longrightarrow> well_formed nc n
               \<Longrightarrow> fresh nc (a[nat \<bar>t\<bar> := polarity t])
               \<Longrightarrow> \<exists>b mo. dpll nc (a[nat \<bar>t\<bar> := polarity t]) lc n = Inr (b, mo)
                     \<and> (\<not> b \<longrightarrow> \<not> (\<exists>w. consistent w (a[nat \<bar>t\<bar> := polarity t])
                                          \<and> satisfies w nc))"
  shows "\<exists>b mo. (case branch_reduce t (- t) cls [] of
                    None \<Rightarrow> Inr (False, None)
                  | Some nc \<Rightarrow> dpll nc (a[nat \<bar>t\<bar> := polarity t]) lc n) = Inr (b, mo)
          \<and> (\<not> b \<longrightarrow> \<not> (\<exists>w. holds w t \<and> consistent w a \<and> satisfies w cls))"
proof (cases "branch_reduce t (- t) cls []")
  case None
  then have "blocked t (- t) cls" by (rule branch_reduce_None)
  then have "\<not> (\<exists>w. holds w t \<and> consistent w a \<and> satisfies w cls)"
    using blocked_unsat by blast
  with None show ?thesis by (intro exI[of _ False] exI[of _ None]) simp
next
  case (Some nc)
  from branch_reduce_Some[OF Some] have nc: "nc = simplify t (- t) cls" by simp
  from t len have lt: "nat \<bar>t\<bar> < length a" by auto
  have "well_formed nc n" unfolding nc using wf by (rule well_formed_simplify)
  moreover have "fresh nc (a[nat \<bar>t\<bar> := polarity t])"
    unfolding nc using fr t(1) by (rule fresh_simplify)
  ultimately obtain b mo where r: "dpll nc (a[nat \<bar>t\<bar> := polarity t]) lc n = Inr (b, mo)"
    and no: "\<not> b \<longrightarrow> \<not> (\<exists>w. consistent w (a[nat \<bar>t\<bar> := polarity t]) \<and> satisfies w nc)"
    using IH[OF Some] by blast
  have "\<not> (\<exists>w. holds w t \<and> consistent w a \<and> satisfies w cls)" if "\<not> b"
    using t(1) lt no[rule_format, OF that, unfolded nc] by (rule round_unsat)
  with Some r show ?thesis by simp
qed

lemma dpll_complete:
  assumes "well_formed cls n" "fresh cls a" "length a = nat (n + 1)"
  shows "\<exists>b mo. dpll cls a lc n = Inr (b, mo)
           \<and> (\<not> b \<longrightarrow> \<not> (\<exists>v. consistent v a \<and> satisfies v cls))"
  using assms
proof (induction cls a lc n rule: dpll.induct)
  case (1 clauses assignment literal_counts num_vars)
  let ?cs = "map remdups clauses"
  have wf: "well_formed ?cs num_vars" using "1.prems"(1) by (rule well_formed_remdups)
  have fr: "fresh ?cs assignment" using "1.prems"(2) by (rule fresh_remdups)
  have qinv: "\<forall>l \<in> set (unit_literals ?cs). l \<noteq> 0 \<and> \<bar>l\<bar> \<le> num_vars \<and> entailed ?cs assignment l"
  proof
    fix l assume l: "l \<in> set (unit_literals ?cs)"
    then have "entailed ?cs assignment l" by (rule unit_literal_entailed) simp
    moreover from l unit_literals_subset[of ?cs] obtain cl where "cl \<in> set ?cs" "l \<in> set cl"
      by blast
    with wf have "l \<noteq> 0" "\<bar>l\<bar> \<le> num_vars" unfolding well_formed_def by blast+
    ultimately show "l \<noteq> 0 \<and> \<bar>l\<bar> \<le> num_vars \<and> entailed ?cs assignment l" by simp
  qed
  from unit_propagate_complete[OF wf fr "1.prems"(3) qinv]
  consider (some) cls' a' where
      "unit_propagate ?cs assignment (unit_literals ?cs) = Inr (Some (cls', a'))"
      "well_formed cls' num_vars" "fresh cls' a'"
      "\<forall>v. consistent v assignment \<and> satisfies v ?cs \<longrightarrow> consistent v a' \<and> satisfies v cls'"
    | (none) "unit_propagate ?cs assignment (unit_literals ?cs) = Inr None"
      "\<not> (\<exists>v. consistent v assignment \<and> satisfies v ?cs)"
    by blast
  then show ?case
  proof cases
    case none
    from none(2) have "\<not> (\<exists>v. consistent v assignment \<and> satisfies v clauses)" by simp
    with dpll_conflict[OF none(1), of literal_counts num_vars] show ?thesis by blast
  next
    case (some cls' a')
    from unit_propagate_undecided[OF some(1)] "1.prems"(3)
    have len: "length a' = nat (num_vars + 1)" by simp
    then have ok: "indices_ok a' num_vars" by (auto simp: indices_ok_def)
    have lift: "\<not> (\<exists>v. consistent v assignment \<and> satisfies v clauses)"
      if "\<not> (\<exists>v. consistent v a' \<and> satisfies v cls')"
      using that some(4) by auto
    show ?thesis
    proof (cases "cls' = []")
      case True
      with dpll_leaf[OF _ ok] some(1) show ?thesis by blast
    next
      case False
      note ne = this
      show ?thesis
      proof (cases "unassigned_vars a' num_vars = []")
        case True
        from stuck_unsat[OF some(2,3) ne True] lift
        have "\<not> (\<exists>v. consistent v assignment \<and> satisfies v clauses)" by blast
        with dpll_stuck[OF some(1) ok ne True, of literal_counts] show ?thesis by blast
      next
        case False
        note un = this
        let ?v = "choose_var literal_counts (unassigned_vars a' num_vars)"
        note cv = choose_var_unassigned[OF un ok, of literal_counts]
        from cv(3) have pos: "nat \<bar>?v\<bar> = nat ?v" "polarity ?v = 1" "?v \<noteq> 0"
          and neg: "nat \<bar>- ?v\<bar> = nat ?v" "polarity (- ?v) = - 1" "- ?v \<noteq> 0"
          by (simp_all add: polarity_def)
        from cv(3,4) have rng: "\<bar>?v\<bar> \<le> num_vars" "\<bar>- ?v\<bar> \<le> num_vars" by simp_all
        let ?first = "case branch_reduce ?v (- ?v) cls' [] of
            None \<Rightarrow> Inr (False, None)
          | Some nc \<Rightarrow> dpll nc (a'[nat ?v := 1]) literal_counts num_vars"
        let ?snd = "case branch_reduce (- ?v) ?v cls' [] of
            None \<Rightarrow> Inr (False, None)
          | Some nc \<Rightarrow> dpll nc (a'[nat ?v := - 1]) literal_counts num_vars"
        have "\<exists>b mo. ?first = Inr (b, mo)
            \<and> (\<not> b \<longrightarrow> \<not> (\<exists>w. holds w ?v \<and> consistent w a' \<and> satisfies w cls'))"
          using round_complete[OF some(2,3) len pos(3) rng(1), of literal_counts,
              unfolded pos]
            "1.IH"(1)[OF some(1) refl refl _ ne un] ok len
          by simp
        then obtain b1 m1 where first: "?first = Inr (b1, m1)"
          and no1: "\<not> b1 \<longrightarrow> \<not> (\<exists>w. holds w ?v \<and> consistent w a' \<and> satisfies w cls')"
          by blast
        note unfold = dpll_branch[OF some(1) ok ne un, of literal_counts]
        show ?thesis
        proof (cases b1)
          case True
          with first unfold
          have "dpll clauses assignment literal_counts num_vars = Inr (True, m1)" by simp
          then show ?thesis by blast
        next
          case False
          then have b1: "b1 = False" by simp
          have "\<exists>b mo. ?snd = Inr (b, mo)
            \<and> (\<not> b \<longrightarrow> \<not> (\<exists>w. holds w (- ?v) \<and> consistent w a' \<and> satisfies w cls'))"
            using round_complete[OF some(2,3) len neg(3) rng(2), of literal_counts,
                unfolded neg minus_minus]
              "1.IH"(2)[OF some(1) refl refl _ ne un first refl b1] ok len
            by simp
          then obtain b2 m2 where snd: "?snd = Inr (b2, m2)"
            and no2: "\<not> b2 \<longrightarrow> \<not> (\<exists>w. holds w (- ?v) \<and> consistent w a' \<and> satisfies w cls')"
            by blast
          have split: "holds w ?v \<or> holds w (- ?v)" for w
            using cv(3) by (auto simp: holds_def)
          have res: "dpll clauses assignment literal_counts num_vars
                = Inr (b2, if b2 then m2 else None)"
            using unfold first False snd
            by (cases b2) (auto split: option.splits)
          have "\<not> (\<exists>v. consistent v assignment \<and> satisfies v clauses)" if "\<not> b2"
          proof (rule lift)
            from that no1 no2 False split
            show "\<not> (\<exists>v. consistent v a' \<and> satisfies v cls')" by blast
          qed
          with res show ?thesis by blast
        qed
      qed
    qed
  qed
qed


lemma grid9_update:
  assumes "grid9 g" shows "grid9 (g[r := (g ! r)[c := d]])"
proof -
  have "length row = 9" if "row \<in> set (g[r := (g ! r)[c := d]])" for row
  proof -
    from that set_update_subset_insert[of g r "(g ! r)[c := d]"]
    have "row = (g ! r)[c := d] \<or> row \<in> set g" by auto
    moreover have "length ((g ! r)[c := d]) = 9" if "r < length g"
      using assms that by (auto simp: grid9_def)
    moreover have "g[r := (g ! r)[c := d]] = g" if "\<not> r < length g"
      using that by (intro list_update_beyond) simp
    ultimately show ?thesis using assms that by (cases "r < length g") (auto simp: grid9_def)
  qed
  with assms show ?thesis by (simp add: grid9_def)
qed

lemma decode_var_error: "decode_var m i g = Inl e \<Longrightarrow> e = IndexError"
  by (auto simp: decode_var_def Let_def split: if_splits)

lemma decode_var_length: "decode_var m i g = Inr g' \<Longrightarrow> length g' = length g"
  by (auto simp: decode_var_def Let_def split: if_splits)

lemma decode_var_ok:
  assumes "grid9 g" "nat i < length m" "1 \<le> i" "i \<le> 729"
  shows "\<exists>g'. decode_var m i g = Inr g' \<and> grid9 g'"
proof -
  from assms(3,4) have row: "nat ((i - 1) div 81) < 9" and col: "nat (((i - 1) mod 81) div 9) < 9"
    by auto
  with assms(1) have "nat ((i - 1) div 81) < length g"
    "nat (((i - 1) mod 81) div 9) < length (g ! nat ((i - 1) div 81))"
    by (auto simp: grid9_def)
  with assms(1,2) show ?thesis
    by (auto simp: decode_var_def Let_def intro: grid9_update)
qed

lemma decode_grid_ok:
  assumes "grid9 g" "\<forall>i \<in> set js. 1 \<le> i \<and> i \<le> 729 \<and> nat i < length m"
  shows "\<exists>g'. decode_grid m js g = Inr g' \<and> grid9 g'"
  using assms
proof (induction js arbitrary: g)
  case Nil
  then show ?case by simp
next
  case (Cons j js)
  from Cons.prems obtain g1 where g1: "decode_var m j g = Inr g1" "grid9 g1"
    using decode_var_ok[of g j m] by auto
  from Cons.IH[OF g1(2)] Cons.prems(2) g1(1) show ?case by simp
qed

lemma decode_grid_overflow:
  assumes "length g \<le> 9" "i \<in> set js" "730 \<le> i" "m ! nat i = 1"
  shows "decode_grid m js g = Inl IndexError"
  using assms
proof (induction js arbitrary: g)
  case Nil
  then show ?case by simp
next
  case (Cons j js)
  show ?case
  proof (cases "decode_var m j g")
    case (Inl e)
    then show ?thesis using decode_var_error[OF Inl] by simp
  next
    case (Inr g1)
    have "j \<noteq> i"
    proof
      assume "j = i"
      with Cons.prems(1,3,4) have "decode_var m j g = Inl IndexError"
        by (auto simp: decode_var_def Let_def)
      with Inr show False by simp
    qed
    with Cons.prems(2) have "i \<in> set js" by simp
    moreover from decode_var_length[OF Inr] Cons.prems(1) have "length g1 \<le> 9" by simp
    ultimately have "decode_grid m js g1 = Inl IndexError"
      using Cons.prems(3,4) by (intro Cons.IH)
    with Inr show ?thesis by simp
  qed
qed

lemma decode_var_keeps:
  assumes "decode_var m i g = Inr g'" "r < length g"
    and "m ! nat i = 1 \<longrightarrow> \<not> (nat ((i - 1) div 81) = r \<and> nat (((i - 1) mod 81) div 9) = c)"
  shows "g' ! r ! c = g ! r ! c"
proof (cases "m ! nat i = 1")
  case False
  with assms(1) show ?thesis by (auto simp: decode_var_def split: if_splits)
next
  case True
  let ?row = "nat ((i - 1) div 81)" and ?col = "nat (((i - 1) mod 81) div 9)"
  from True assms(1) have g': "g' = g[?row := (g ! ?row)[?col := (i - 1) mod 9 + 1]]"
    by (auto simp: decode_var_def Let_def split: if_splits)
  show ?thesis
  proof (cases "?row = r")
    case False
    with g' show ?thesis by simp
  next
    case rw: True
    with True assms(3) have "?col \<noteq> c" by simp
    with rw g' assms(2) show ?thesis by simp
  qed
qed

lemma decode_grid_keeps:
  assumes "decode_grid m js g = Inr g'" "r < length g"
    and "\<forall>i \<in> set js. m ! nat i = 1
           \<longrightarrow> \<not> (nat ((i - 1) div 81) = r \<and> nat (((i - 1) mod 81) div 9) = c)"
  shows "g' ! r ! c = g ! r ! c"
  using assms
proof (induction js arbitrary: g)
  case Nil
  then show ?case by simp
next
  case (Cons j js)
  from Cons.prems(1) obtain g1 where g1: "decode_var m j g = Inr g1" "decode_grid m js g1 = Inr g'"
    by (auto split: sum.splits)
  from decode_var_length[OF g1(1)] Cons.prems(2) have "r < length g1" by simp
  with Cons.IH[OF g1(2)] Cons.prems(3) have "g' ! r ! c = g1 ! r ! c" by simp
  also from g1(1) Cons.prems(2,3) have "g1 ! r ! c = g ! r ! c"
    by (intro decode_var_keeps) auto
  finally show ?case .
qed


lemma ternary_replicate: "ternary (replicate k 0)"
  by (auto simp: ternary_def)

lemma fresh_replicate:
  assumes "well_formed cls n" shows "fresh cls (replicate (nat (n + 1)) 0)"
  unfolding fresh_def
proof (intro ballI)
  fix cl l assume "cl \<in> set cls" "l \<in> set cl"
  with assms have "\<bar>l\<bar> \<le> n" by (auto simp: well_formed_def)
  then have "nat \<bar>l\<bar> < nat (n + 1)" by auto
  then show "replicate (nat (n + 1)) 0 ! nat \<bar>l\<bar> = 0" by simp
qed

lemma consistent_replicate: "consistent v (replicate k 0)"
  by (simp add: consistent_def)

lemma clause_true_holds:
  assumes "clause_true m cl" shows "\<exists>l \<in> set cl. holds (\<lambda>i. m ! nat i = 1) l"
proof -
  from assms obtain l where l: "l \<in> set cl" "lit_true m l" by (auto simp: clause_true_def)
  from l(2) have "holds (\<lambda>i. m ! nat i = 1) l"
    by (auto simp: lit_true_def holds_def)
  with l(1) show ?thesis by blast
qed

lemma dpll_decides:
  assumes "well_formed clauses num_vars"
  shows "\<exists>mo. dpll (map remdups clauses) (replicate (nat (num_vars + 1)) 0) lc num_vars
                 = Inr (satisfiable clauses, mo)
             \<and> (satisfiable clauses \<longrightarrow>
                  (\<exists>m. mo = Some m \<and> length m = nat (num_vars + 1)
                       \<and> (\<forall>cl \<in> set clauses. clause_true m cl)
                       \<and> (\<forall>i. 1 \<le> i \<and> i \<le> num_vars \<longrightarrow> m ! nat i = 1 \<or> m ! nat i = - 1)))"
proof -
  let ?cs = "map remdups clauses" and ?a = "replicate (nat (num_vars + 1)) 0"
  have wf: "well_formed ?cs num_vars" using assms by (rule well_formed_remdups)
  from dpll_complete[OF wf fresh_replicate[OF wf], of lc]
  obtain b mo where r: "dpll ?cs ?a lc num_vars = Inr (b, mo)"
    and no: "\<not> b \<longrightarrow> \<not> (\<exists>v. consistent v ?a \<and> satisfies v ?cs)"
    by auto
  show ?thesis
  proof (cases b)
    case False
    with no have "\<not> satisfiable clauses"
      by (simp add: satisfiable_def consistent_replicate)
    with r False show ?thesis by simp
  next
    case True
    with r have rT: "dpll ?cs ?a lc num_vars = Inr (True, mo)" by simp
    from dpll_sound[OF rT well_formed_nonzero[OF wf] ternary_replicate]
    obtain m where m: "mo = Some m" "agrees m ?a" "\<forall>cl \<in> set ?cs. clause_true m cl"
      "\<forall>i. 1 \<le> i \<and> i \<le> num_vars \<longrightarrow> m ! nat i = 1 \<or> m ! nat i = - 1"
      by blast
    from m(3) have tr: "\<forall>cl \<in> set clauses. clause_true m cl" by simp
    then have "satisfies (\<lambda>i. m ! nat i = 1) clauses"
      unfolding satisfies_def using clause_true_holds by blast
    then have "satisfiable clauses" unfolding satisfiable_def by blast
    moreover from m(2) have "length m = nat (num_vars + 1)" by (simp add: agrees_def)
    ultimately show ?thesis using r True m(1,4) tr by simp
  qed
qed

text \<open>
  Claim C1 (soundness of the solver). Whenever \<open>solve_cnf\<close> returns the status \<open>"SAT"\<close> on
  an instance whose literals are nonzero, the call of \<open>dpll\<close> it made returned a model that
  is a total assignment over the variables \<open>1 .. num_vars\<close> (every entry \<open>1\<close> or \<open>-1\<close>, the
  list having \<open>num_vars + 1\<close> entries), and every clause of the instance contains a literal
  that this model makes true.
\<close>

theorem solve_cnf_sound:
  assumes "solve_cnf clauses num_vars = Inr (''SAT'', grid)"
    and "\<forall>cl \<in> set clauses. 0 \<notin> set cl"
  shows "\<exists>model. dpll (map remdups clauses) (replicate (nat (num_vars + 1)) 0)
                    (literal_counts_of (map remdups clauses)) num_vars = Inr (True, Some model)
           \<and> total_model model num_vars
           \<and> (\<forall>cl \<in> set clauses. clause_true model cl)"
proof -
  let ?cs = "map remdups clauses" and ?a = "replicate (nat (num_vars + 1)) 0"
  from assms(1) obtain mo where r: "dpll ?cs ?a (literal_counts_of ?cs) num_vars = Inr (True, mo)"
    unfolding solve_cnf_def by (auto split: sum.splits prod.splits bool.splits)
  from assms(2) have "nonzero ?cs" by (simp add: nonzero_def)
  from dpll_sound[OF r this ternary_replicate]
  obtain m where m: "mo = Some m" "agrees m ?a" "\<forall>cl \<in> set ?cs. clause_true m cl"
    "\<forall>i. 1 \<le> i \<and> i \<le> num_vars \<longrightarrow> m ! nat i = 1 \<or> m ! nat i = - 1"
    by blast
  from m(2) have "length m = nat (num_vars + 1)" by (simp add: agrees_def)
  with m(4) have "total_model m num_vars" by (simp add: total_model_def)
  with r m(1,3) show ?thesis by simp
qed

theorem solve_cnf_sound_witness:
  "solve_cnf [[1, 2], [- 1]] 2
     = Inr (''SAT'', Some ([2, 0, 0, 0, 0, 0, 0, 0, 0] # replicate 8 (replicate 9 0)))
   \<and> (\<exists>model. dpll (map remdups [[1, 2], [- 1]]) (replicate (nat (2 + 1)) 0)
                    (literal_counts_of (map remdups [[1, 2], [- 1]])) 2 = Inr (True, Some model)
           \<and> total_model model 2
           \<and> (\<forall>cl \<in> set [[1, 2], [- 1]]. clause_true model cl))"
proof -
  have run: "solve_cnf [[1, 2], [- 1]] 2
     = Inr (''SAT'', Some ([2, 0, 0, 0, 0, 0, 0, 0, 0] # replicate 8 (replicate 9 0)))"
    by code_simp
  have nz: "\<forall>cl \<in> set [[1, 2], [- 1 :: int]]. 0 \<notin> set cl" by simp
  from solve_cnf_sound[OF run nz] run show ?thesis by blast
qed



lemma decode_range_ok:
  assumes "length m = nat (num_vars + 1)" "num_vars \<le> 729"
  shows "\<exists>g. decode_grid m [1..num_vars] (replicate 9 (replicate 9 0)) = Inr g \<and> grid9 g"
proof (rule decode_grid_ok)
  show "grid9 (replicate 9 (replicate 9 0))" by (simp add: grid9_def)
  from assms show "\<forall>i \<in> set [1..num_vars]. 1 \<le> i \<and> i \<le> 729 \<and> nat i < length m" by auto
qed

text \<open>
  Within the 9 by 9 grid that the decoding loop writes into, \<open>solve_cnf\<close> decides: on an
  instance whose literals are nonzero with a variable id in \<open>1 .. num_vars\<close> and with
  \<open>num_vars \<le> 729\<close>, it returns \<open>"SAT"\<close> with a grid if the clause set is satisfiable and
  \<open>"UNSAT"\<close> with \<open>None\<close> if it is not. No return of \<open>False\<close> by \<open>dpll\<close>, the one for "clauses
  remain but no unassigned variable" included, discards a satisfiable branch.
\<close>

lemma solve_cnf_decides_within_grid:
  assumes "well_formed clauses num_vars" "num_vars \<le> 729"
  shows "(satisfiable clauses \<longrightarrow> (\<exists>grid. solve_cnf clauses num_vars = Inr (''SAT'', Some grid)))
       \<and> (\<not> satisfiable clauses \<longrightarrow> solve_cnf clauses num_vars = Inr (''UNSAT'', None))"
proof -
  let ?lc = "literal_counts_of (map remdups clauses)"
  from dpll_decides[OF assms(1), of ?lc] obtain mo where
    r: "dpll (map remdups clauses) (replicate (nat (num_vars + 1)) 0) ?lc num_vars
          = Inr (satisfiable clauses, mo)"
    and m: "satisfiable clauses \<longrightarrow> (\<exists>m. mo = Some m \<and> length m = nat (num_vars + 1))"
    by blast
  have "solve_cnf clauses num_vars = Inr (''UNSAT'', None)" if "\<not> satisfiable clauses"
    using r that by (simp add: solve_cnf_def)
  moreover have "\<exists>grid. solve_cnf clauses num_vars = Inr (''SAT'', Some grid)"
    if sat: "satisfiable clauses"
  proof -
    from m sat obtain ma where ma: "mo = Some ma" "length ma = nat (num_vars + 1)" by blast
    from decode_range_ok[OF ma(2) assms(2)] obtain g where
      "decode_grid ma [1..num_vars] (replicate 9 (replicate 9 0)) = Inr g" by blast
    with r sat ma(1) show ?thesis by (simp add: solve_cnf_def)
  qed
  ultimately show ?thesis by blast
qed

text \<open>
  Claim C2 (completeness and termination) at the instance with the single clause \<open>[730]\<close>
  over 730 variables. The clause set is satisfiable (the valuation that makes every
  variable true makes the literal \<open>730\<close> hold), and the claim has \<open>solve_cnf\<close> return \<open>"SAT"\<close>.
  The search of \<open>dpll\<close> finds the model, but the decoding loop of \<open>solve_cnf\<close> then indexes
  row \<open>729 div 81 = 9\<close> of its 9-row grid, and \<open>solve_cnf\<close> raises IndexError and returns no
  verdict.
\<close>

theorem solve_cnf_raises_beyond_grid:
  "holds (\<lambda>i. True) 730 \<and> solve_cnf [[730]] 730 = Inl IndexError"
proof -
  have wf: "well_formed [[730]] 730" by (simp add: well_formed_def)
  have h: "holds (\<lambda>i. True) 730" by (simp add: holds_def)
  then have "satisfies (\<lambda>i. True) [[730]]" by (simp add: satisfies_def)
  then have sat: "satisfiable [[730]]" unfolding satisfiable_def by blast
  let ?lc = "literal_counts_of (map remdups [[730]])"
  from dpll_decides[OF wf, of ?lc] sat obtain m where
    r: "dpll (map remdups [[730]]) (replicate (nat (730 + 1)) 0) ?lc 730 = Inr (True, Some m)"
    and tr: "\<forall>cl \<in> set [[730]]. clause_true m cl"
    by auto
  from tr have "m ! 730 = 1" by (simp add: clause_true_def lit_true_def)
  then have "decode_grid m [1..730] (replicate 9 (replicate 9 0)) = Inl IndexError"
    by (intro decode_grid_overflow[where i = 730]) simp_all
  with r have "solve_cnf [[730]] 730 = Inl IndexError"
    by (simp add: solve_cnf_def)
  with h show ?thesis by simp
qed

lemma dpll_length:
  "dpll cls a lc n = Inr (True, Some m) \<Longrightarrow> length m = length a"
proof (induction cls a lc n rule: dpll.induct)
  case (1 clauses assignment literal_counts num_vars)
  from "1.prems" show ?case
  proof (cases rule: dpll_True_cases)
    case (leaf a')
    with unit_propagate_undecided[OF leaf(1)] show ?thesis by simp
  next
    case (first cls' a' nc)
    from "1.IH"(1)[OF first(1) refl refl _ first(3,4,5,6)] first(2)
      unit_propagate_undecided[OF first(1)]
    show ?thesis by simp
  next
    case (second cls' a' nc x)
    from "1.IH"(2)[OF second(1) refl refl _ second(3,4,5) refl refl second(6,7)] second(2)
      unit_propagate_undecided[OF second(1)]
    show ?thesis by simp
  qed
qed

lemma cell_of_index:
  assumes "1 \<le> i" "nat ((i - 1) div 81) = r" "nat (((i - 1) mod 81) div 9) = c"
  shows "\<exists>v \<in> {1..9}. i = 81 * int r + 9 * int c + int v"
proof -
  let ?d = "(i - 1) mod 9"
  have "0 \<le> ?d" "?d < 9" by simp_all
  then have v: "nat (?d + 1) \<in> {1..9}" by auto
  from assms have rc: "int r = (i - 1) div 81" "int c = ((i - 1) mod 81) div 9" by auto
  have "i - 1 = 81 * ((i - 1) div 81) + (i - 1) mod 81" by simp
  moreover have "(i - 1) mod 81 = 9 * (((i - 1) mod 81) div 9) + ((i - 1) mod 81) mod 9"
    by simp
  moreover have "((i - 1) mod 81) mod 9 = ?d"
    by (rule mod_mod_cancel) simp
  ultimately have "i = 81 * int r + 9 * int c + (?d + 1)"
    unfolding rc by linarith
  moreover have "int (nat (?d + 1)) = ?d + 1" by simp
  ultimately have "i = 81 * int r + 9 * int c + int (nat (?d + 1))" by simp
  with v show ?thesis by blast
qed

text \<open>
  Claim C8 (decoder integrity check), as the code has it. The decoding loop of \<open>solve_cnf\<close>
  performs no integrity check: when the model returned by \<open>dpll\<close> assigns true to none of
  the variables \<open>81 r + 9 c + v\<close> (\<open>v\<close> in \<open>1 .. 9\<close>, within \<open>num_vars \<le> 729\<close>) of a cell
  \<open>(r, c)\<close>, \<open>solve_cnf\<close> still returns \<open>"SAT"\<close> with a grid, and that cell of the grid
  holds \<open>0\<close>.
\<close>

theorem decode_without_integrity_check:
  assumes "dpll (map remdups clauses) (replicate (nat (num_vars + 1)) 0)
             (literal_counts_of (map remdups clauses)) num_vars = Inr (True, Some model)"
    and "num_vars \<le> 729" "r < 9" "c < 9"
    and "\<forall>v \<in> {1..9}. 81 * int r + 9 * int c + int v \<le> num_vars
           \<longrightarrow> model ! nat (81 * int r + 9 * int c + int v) \<noteq> 1"
  shows "\<exists>grid. solve_cnf clauses num_vars = Inr (''SAT'', Some grid) \<and> grid ! r ! c = 0"
proof -
  from dpll_length[OF assms(1)] have len: "length model = nat (num_vars + 1)" by simp
  from decode_range_ok[OF len assms(2)] obtain g where
    g: "decode_grid model [1..num_vars] (replicate 9 (replicate 9 0)) = Inr g" by blast
  have "\<forall>i \<in> set [1..num_vars]. model ! nat i = 1
           \<longrightarrow> \<not> (nat ((i - 1) div 81) = r \<and> nat (((i - 1) mod 81) div 9) = c)"
  proof (intro ballI impI notI)
    fix i assume i: "i \<in> set [1..num_vars]" "model ! nat i = 1"
      and "nat ((i - 1) div 81) = r \<and> nat (((i - 1) mod 81) div 9) = c"
    with cell_of_index[of i r c] obtain v where v: "v \<in> {1..9}"
      "i = 81 * int r + 9 * int c + int v" by auto
    with i(1) assms(5) have "model ! nat i \<noteq> 1" by auto
    with i(2) show False by simp
  qed
  with g assms(3) have "g ! r ! c = replicate 9 (replicate 9 0) ! r ! c"
    by (intro decode_grid_keeps[where m = model and js = "[1..num_vars]"]) simp_all
  with assms(3,4) have "g ! r ! c = 0" by simp
  with g assms(1) show ?thesis by (simp add: solve_cnf_def)
qed

lemma dpll_no_clauses:
  "dpll [] (replicate (nat (n + 1)) 0) lc n
     = Inr (True, Some (fill_model (replicate (nat (n + 1)) 0) n))"
  by (intro dpll_leaf) (simp_all add: unit_literals_def unit_propagate_empty indices_ok_def)

theorem decode_without_integrity_check_witness:
  "\<exists>grid. solve_cnf [] 729 = Inr (''SAT'', Some grid) \<and> grid ! 0 ! 0 = 0"
proof -
  let ?m = "fill_model (replicate (nat (729 + 1)) 0) 729"
  have r: "dpll (map remdups []) (replicate (nat (729 + 1)) 0)
             (literal_counts_of (map remdups [])) 729 = Inr (True, Some ?m)"
    using dpll_no_clauses[of 729] by simp
  have "\<forall>v \<in> {1..9}. 81 * int 0 + 9 * int 0 + int v \<le> 729
           \<longrightarrow> ?m ! nat (81 * int 0 + 9 * int 0 + int v) \<noteq> 1"
    by (auto simp: fill_model_nth)
  from decode_without_integrity_check[OF r _ _ _ this] show ?thesis by simp
qed

text \<open>
  The claim as stated fails: for the instance without clauses over 729 variables the model
  sets every variable to \<open>-1\<close>, no cell has a true variable, and \<open>solve_cnf\<close> returns
  \<open>"SAT"\<close> with the all-zero grid rather than an error.
\<close>

theorem incomplete_model_counterexample:
  "dpll [] (replicate (nat (729 + 1)) 0) (literal_counts_of []) 729
     = Inr (True, Some (0 # replicate 729 (- 1)))
   \<and> solve_cnf [] 729 = Inr (''SAT'', Some (replicate 9 (replicate 9 0)))"
proof -
  let ?m = "fill_model (replicate (nat (729 + 1)) 0) 729"
  have m: "?m = 0 # replicate 729 (- 1)"
    by (intro nth_equalityI) (auto simp: fill_model_nth nth_Cons split: nat.splits)
  have r: "dpll [] (replicate (nat (729 + 1)) 0) (literal_counts_of []) 729
     = Inr (True, Some (0 # replicate 729 (- 1)))"
    using dpll_no_clauses[of 729] m by simp
  have len: "length (0 # replicate 729 (- 1 :: int)) = nat (729 + 1)" by simp
  from decode_range_ok[OF len] obtain g where
    g: "decode_grid (0 # replicate 729 (- 1)) [1..729] (replicate 9 (replicate 9 0)) = Inr g"
    and g9: "grid9 g" by auto
  have none: "(0 # replicate 729 (- 1 :: int)) ! nat i \<noteq> 1" if "i \<in> set [1..729]" for i
  proof -
    from that obtain k where k: "nat i = Suc k" "k < 729"
      by (cases "nat i") auto
    then show ?thesis by simp
  qed
  have cell: "g ! r ! c = 0" if "r < 9" "c < 9" for r c
  proof -
    have "g ! r ! c = replicate 9 (replicate 9 0) ! r ! c"
      using g that none
      by (intro decode_grid_keeps[where m = "0 # replicate 729 (- 1)" and js = "[1..729]"])
         (simp_all del: upto.simps set_upto)
    with that show ?thesis by simp
  qed
  have "g = replicate 9 (replicate 9 0)"
  proof (rule nth_equalityI)
    show "length g = length (replicate 9 (replicate 9 (0::int)))" using g9 by (simp add: grid9_def)
    fix r assume r: "r < length g"
    with g9 have r9: "r < 9" and lr: "length (g ! r) = 9" by (auto simp: grid9_def)
    have "g ! r = replicate 9 0"
      using lr cell[OF r9] by (intro nth_equalityI) simp_all
    with r9 show "g ! r = replicate 9 (replicate 9 0) ! r" by simp
  qed
  with g r show ?thesis by (simp add: solve_cnf_def)
qed



section \<open>Properties of the encoders\<close>

lemma var_nested: "var N r c v = int ((r * N + c) * N + v)"
  by (simp add: var_def algebra_simps)

lemma nested_eq:
  assumes "(q :: nat) * N + a = q' * N + a'" "a < N" "a' < N"
  shows "q = q' \<and> a = a'"
proof -
  from assms(2) have "(q * N + a) div N = q" "(q * N + a) mod N = a" by simp_all
  moreover from assms(3) have "(q' * N + a') div N = q'" "(q' * N + a') mod N = a'" by simp_all
  ultimately show ?thesis using assms(1) by metis
qed

lemma var_inj:
  assumes "var N r c v = var N r' c' v'"
    and "c < N" "c' < N" "1 \<le> v" "v \<le> N" "1 \<le> v'" "v' \<le> N"
  shows "r = r' \<and> c = c' \<and> v = v'"
proof -
  from assms(1) have "(r * N + c) * N + v = (r' * N + c') * N + v'"
    unfolding var_nested by (simp only: of_nat_eq_iff)
  with assms(4,6) have "(r * N + c) * N + (v - 1) = (r' * N + c') * N + (v' - 1)" by simp
  moreover from assms(4-7) have "v - 1 < N" "v' - 1 < N" by simp_all
  ultimately have "r * N + c = r' * N + c'" "v - 1 = v' - 1"
    using nested_eq by blast+
  with assms(2,3,4,6) nested_eq[of r N c r' c'] show ?thesis by auto
qed

lemma var_range:
  assumes "r < N" "c < N" "1 \<le> v" "v \<le> N"
  shows "1 \<le> var N r c v" "var N r c v \<le> int (N ^ 3)"
proof -
  from assms(3) have "int 1 \<le> int (r * N * N + c * N + v)"
    by (subst of_nat_le_iff) simp
  then show "1 \<le> var N r c v" by (simp add: var_def)
  from assms(1) have "r + 1 \<le> N" by simp
  then have "(r + 1) * (N * N) \<le> N * (N * N)" by (rule mult_le_mono1)
  moreover from assms(2) have "c + 1 \<le> N" by simp
  then have "(c + 1) * N \<le> N * N" by (rule mult_le_mono1)
  ultimately have "r * N * N + c * N + v \<le> N * N * N"
    using assms(4) by (simp add: algebra_simps)
  then have "int (r * N * N + c * N + v) \<le> int (N * N * N)"
    by (subst of_nat_le_iff)
  then show "var N r c v \<le> int (N ^ 3)"
    by (simp add: var_def power3_eq_cube)
qed

lemma unvar_var:
  assumes "1 \<le> i" "i \<le> int (N ^ 3)"
  shows "case unvar N i of (r, c, v) \<Rightarrow> r < N \<and> c < N \<and> 1 \<le> v \<and> v \<le> N \<and> var N r c v = i"
proof -
  from assms have N: "0 < N" by (cases "N = 0") auto
  define x where "x = nat (i - 1)"
  from assms(2) have "i - 1 < int (N * N * N)" by (simp add: power3_eq_cube)
  with assms(1) have x: "x < N * N * N"
    unfolding x_def by (subst nat_less_iff) simp_all
  from assms(1) have i: "i = int x + 1" by (simp add: x_def)
  have r: "nat ((i - 1) div int (N * N)) = x div (N * N)"
    unfolding i by (simp add: zdiv_int[symmetric] del: of_nat_mult)
  have c: "nat (((i - 1) mod int (N * N)) div int N) = (x mod (N * N)) div N"
    unfolding i by (simp add: zdiv_int[symmetric] zmod_int[symmetric] del: of_nat_mult)
  have v: "nat ((i - 1) mod int N + 1) = x mod N + 1"
    unfolding i by (simp add: zmod_int[symmetric] nat_add_distrib)
  have "x div (N * N) < N"
    using x N by (simp add: less_mult_imp_div_less mult.commute)
  moreover have "(x mod (N * N)) div N < N"
    using N by (simp add: less_mult_imp_div_less)
  moreover have "x mod N + 1 \<le> N" using N by (simp add: Suc_leI)
  moreover have "x div (N * N) * N * N + (x mod (N * N)) div N * N + (x mod N + 1) = x + 1"
  proof -
    have "x mod (N * N) mod N = x mod N" by (simp add: mod_mult_self1_is_0 mod_mod_cancel)
    then have "(x mod (N * N)) div N * N + x mod N = x mod (N * N)"
      by (metis div_mult_mod_eq)
    moreover have "x div (N * N) * (N * N) + x mod (N * N) = x" by (rule div_mult_mod_eq)
    ultimately show ?thesis by (simp add: mult.assoc)
  qed
  ultimately have "x div (N * N) < N" "(x mod (N * N)) div N < N" "x mod N + 1 \<le> N"
    and "int (x div (N * N) * N * N + (x mod (N * N)) div N * N + (x mod N + 1)) = int (x + 1)"
    by simp_all
  then show ?thesis
    unfolding unvar_def r c v by (simp add: var_def i)
qed

lemma var_bij:
  "bij_betw (\<lambda>(r, c, v). var N r c v) ({0..<N} \<times> {0..<N} \<times> {1..N}) {1..int (N ^ 3)}"
  unfolding bij_betw_def
proof
  show "inj_on (\<lambda>(r, c, v). var N r c v) ({0..<N} \<times> {0..<N} \<times> {1..N})"
    by (rule inj_onI) (auto dest: var_inj)
  show "(\<lambda>(r, c, v). var N r c v) ` ({0..<N} \<times> {0..<N} \<times> {1..N}) = {1..int (N ^ 3)}"
  proof (intro equalityI subsetI)
    fix i assume "i \<in> (\<lambda>(r, c, v). var N r c v) ` ({0..<N} \<times> {0..<N} \<times> {1..N})"
    then show "i \<in> {1..int (N ^ 3)}" using var_range by auto
  next
    fix i assume "i \<in> {1..int (N ^ 3)}"
    then have "case unvar N i of (r, c, v) \<Rightarrow> r < N \<and> c < N \<and> 1 \<le> v \<and> v \<le> N \<and> var N r c v = i"
      by (intro unvar_var) auto
    then show "i \<in> (\<lambda>(r, c, v). var N r c v) ` ({0..<N} \<times> {0..<N} \<times> {1..N})"
      by (cases "unvar N i") force
  qed
qed

lemma solving_num_vars: "solving_to_cnf text = Inr (cls, nv) \<Longrightarrow> nv = int (length text ^ 3)"
  by (auto simp: solving_to_cnf_def Let_def power3_eq_cube split: if_splits sum.splits)

lemma CODE_num_vars: "CODE_to_cnf text = Inr (cls, nv) \<Longrightarrow> nv = int (length text ^ 3)"
  by (auto simp: CODE_to_cnf_def Let_def power3_eq_cube split: if_splits sum.splits)

lemma isqrt_eq_0: "isqrt N = 0 \<longleftrightarrow> N = 0"
proof (cases "N = 0")
  case True
  then show ?thesis by (simp add: isqrt_def)
next
  case False
  then have "1 \<in> set [k \<leftarrow> [1..<N + 1]. k * k \<le> N]" by auto
  then have "[k \<leftarrow> [1..<N + 1]. k * k \<le> N] \<noteq> []" by (metis empty_iff empty_set)
  with False show ?thesis by (simp add: isqrt_def)
qed


lemma clue_clauses_ok:
  "(\<exists>cl. clue_clauses N text cells = Inr cl)
     \<longleftrightarrow> (\<forall>(r, c) \<in> set cells. c < length (text ! r) \<and> text ! r ! c \<noteq> None)"
proof (induction cells)
  case Nil
  then show ?case by simp
next
  case (Cons rc cells)
  obtain r c where rc: "rc = (r, c)" by (cases rc)
  show ?case
  proof (cases "c < length (text ! r) \<and> text ! r ! c \<noteq> None")
    case False
    then show ?thesis unfolding rc by (auto split: option.splits)
  next
    case True
    then obtain v where v: "text ! r ! c = Some v" by auto
    show ?thesis
    proof (cases "clue_clauses N text cells")
      case (Inl e)
      with Cons.IH True v show ?thesis unfolding rc by simp
    next
      case (Inr cl)
      with Cons.IH True v show ?thesis unfolding rc by simp
    qed
  qed
qed

lemma accepted_cells:
  "accepted text \<longleftrightarrow> text \<noteq> [] \<and>
     (\<forall>(r, c) \<in> set [(r, c). r \<leftarrow> [0..<length text], c \<leftarrow> [0..<length text]].
         c < length (text ! r) \<and> text ! r ! c \<noteq> None)"
proof -
  let ?N = "length text"
  have "(\<forall>row \<in> set text. ?N \<le> length row \<and> (\<forall>tok \<in> set (take ?N row). tok \<noteq> None))
      \<longleftrightarrow> (\<forall>r < ?N. \<forall>c < ?N. c < length (text ! r) \<and> text ! r ! c \<noteq> None)"
    (is "?L \<longleftrightarrow> ?R")
  proof
    assume L: ?L
    show ?R
    proof (intro allI impI)
      fix r c assume r: "r < ?N" and c: "c < ?N"
      from r have row: "text ! r \<in> set text" by simp
      with L have len: "?N \<le> length (text ! r)"
        and tok: "\<forall>tok \<in> set (take ?N (text ! r)). tok \<noteq> None" by auto
      from c len have "take ?N (text ! r) ! c \<in> set (take ?N (text ! r))"
        by (intro nth_mem) simp
      with c have "text ! r ! c \<in> set (take ?N (text ! r))" by simp
      with tok c len show "c < length (text ! r) \<and> text ! r ! c \<noteq> None" by auto
    qed
  next
    assume R: ?R
    show ?L
    proof (intro ballI conjI)
      fix row assume "row \<in> set text"
      then obtain r where r: "r < ?N" "row = text ! r" by (auto simp: in_set_conv_nth)
      show len: "?N \<le> length row"
      proof (rule ccontr)
        assume "\<not> ?N \<le> length row"
        then have "length row < ?N" by simp
        with R r show False by auto
      qed
      fix tok assume "tok \<in> set (take ?N row)"
      then obtain c where "c < ?N" "tok = row ! c"
        using len by (auto simp: in_set_conv_nth)
      with R r show "tok \<noteq> None" by auto
    qed
  qed
  then show ?thesis unfolding accepted_def by auto
qed

lemma solving_to_cnf_accepts:
  "(\<exists>cls. solving_to_cnf text = Inr (cls, int (length text ^ 3))) \<longleftrightarrow> accepted text"
proof -
  let ?N = "length text"
  let ?cells = "[(r, c). r \<leftarrow> [0..<?N], c \<leftarrow> [0..<?N]]"
  have "(\<exists>cls. solving_to_cnf text = Inr (cls, int (?N ^ 3)))
       \<longleftrightarrow> text \<noteq> [] \<and> (\<exists>cl. clue_clauses ?N text ?cells = Inr cl)"
    by (auto simp: solving_to_cnf_def Let_def isqrt_eq_0 power3_eq_cube split: sum.splits)
  then show ?thesis
    unfolding accepted_cells clue_clauses_ok by simp
qed

lemma CODE_to_cnf_accepts:
  "(\<exists>cls. CODE_to_cnf text = Inr (cls, int (length text ^ 3))) \<longleftrightarrow> accepted text"
proof -
  let ?N = "length text"
  let ?cells = "[(r, c). r \<leftarrow> [0..<?N], c \<leftarrow> [0..<?N]]"
  have "(\<exists>cls. CODE_to_cnf text = Inr (cls, int (?N ^ 3)))
       \<longleftrightarrow> text \<noteq> [] \<and> (\<exists>cl. clue_clauses ?N text ?cells = Inr cl)"
    by (auto simp: CODE_to_cnf_def Let_def isqrt_eq_0 power3_eq_cube split: sum.splits)
  then show ?thesis
    unfolding accepted_cells clue_clauses_ok by simp
qed


text \<open>
  Claim C3 (variable-numbering bijection). For every grid size \<open>N\<close> (a perfect square or
  not), \<open>var\<close> maps the triples \<open>(r, c, v)\<close> with \<open>r, c\<close> in \<open>[0, N)\<close> and \<open>v\<close> in \<open>[1, N]\<close>
  one-to-one onto the integers \<open>1 .. N\<^sup>3\<close>, and the \<open>num_vars\<close> that either encoder returns
  for a file of \<open>N\<close> lines is \<open>N\<^sup>3\<close>.
\<close>

theorem var_bijection:
  "bij_betw (\<lambda>(r, c, v). var N r c v) ({0..<N} \<times> {0..<N} \<times> {1..N}) {1..int (N ^ 3)}
   \<and> (\<forall>text cls nv. length text = N
          \<and> (solving_to_cnf text = Inr (cls, nv) \<or> CODE_to_cnf text = Inr (cls, nv))
        \<longrightarrow> nv = int (N ^ 3))"
  using var_bij solving_num_vars CODE_num_vars by blast

theorem var_bijection_witness:
  "bij_betw (\<lambda>(r, c, v). var 4 r c v) ({0..<4} \<times> {0..<4} \<times> {1..4}) {1..int (4 ^ 3)}
   \<and> (\<exists>cls. solving_to_cnf (replicate 4 (replicate 4 (Some 0))) = Inr (cls, int (4 ^ 3)))"
proof -
  let ?text = "replicate 4 (replicate 4 (Some (0::int)))"
  have "accepted ?text" by (simp add: accepted_def)
  then obtain cls where run: "solving_to_cnf ?text = Inr (cls, int (length ?text ^ 3))"
    using solving_to_cnf_accepts[of ?text] by blast
  have len: "length ?text = 4" by simp
  from var_bijection[of 4] len run show ?thesis by auto
qed

text \<open>
  Claim C7 (encoder input validation), as the code has it. Neither \<open>to_cnf\<close> validates the
  puzzle: each returns a CNF with \<open>num_vars = N\<^sup>3\<close> exactly on the accepted inputs (at least
  one line, and the first \<open>N\<close> tokens of each of the \<open>N\<close> lines exist and are integers),
  whether or not \<open>N\<close> is a perfect square, a line has more than \<open>N\<close> tokens, or a clue lies
  outside \<open>[0, N]\<close>. On every other input it raises an exception (ValueError or IndexError)
  and returns no CNF, partial or whole.
\<close>

theorem to_cnf_validation:
  "((\<exists>cls. solving_to_cnf text = Inr (cls, int (length text ^ 3))) \<longleftrightarrow> accepted text)
   \<and> ((\<exists>cls. CODE_to_cnf text = Inr (cls, int (length text ^ 3))) \<longleftrightarrow> accepted text)
   \<and> (\<not> accepted text \<longrightarrow>
         (\<exists>e. solving_to_cnf text = Inl e) \<and> (\<exists>e. CODE_to_cnf text = Inl e))"
proof (intro conjI impI)
  show "(\<exists>cls. solving_to_cnf text = Inr (cls, int (length text ^ 3))) \<longleftrightarrow> accepted text"
    by (rule solving_to_cnf_accepts)
  show "(\<exists>cls. CODE_to_cnf text = Inr (cls, int (length text ^ 3))) \<longleftrightarrow> accepted text"
    by (rule CODE_to_cnf_accepts)
next
  assume no: "\<not> accepted text"
  show "\<exists>e. solving_to_cnf text = Inl e"
  proof (cases "solving_to_cnf text")
    case (Inr res)
    obtain cls nv where "res = (cls, nv)" by (cases res)
    with Inr solving_num_vars[of "text" cls nv] solving_to_cnf_accepts[of "text"] no
    show ?thesis by auto
  qed simp
  show "\<exists>e. CODE_to_cnf text = Inl e"
  proof (cases "CODE_to_cnf text")
    case (Inr res)
    obtain cls nv where "res = (cls, nv)" by (cases res)
    with Inr CODE_num_vars[of "text" cls nv] CODE_to_cnf_accepts[of "text"] no
    show ?thesis by auto
  qed simp
qed

theorem to_cnf_validation_witness:
  "(\<exists>cls. solving_to_cnf [[Some 0, Some 3, Some 7], [Some 0, Some 0, Some 0], [Some 1, Some 0, Some 0]]
            = Inr (cls, int (length [[Some 0, Some 3, Some (7::int)], [Some 0, Some 0, Some 0], [Some 1, Some 0, Some 0]] ^ 3)))
   \<and> (\<exists>e. CODE_to_cnf [[Some 0, Some 2], [Some 0]] = Inl e)"
proof -
  have "accepted [[Some 0, Some 3, Some (7::int)], [Some 0, Some 0, Some 0], [Some 1, Some 0, Some 0]]"
    by (simp add: accepted_def)
  moreover have "\<not> accepted [[Some 0, Some (2::int)], [Some 0]]"
    by (simp add: accepted_def)
  ultimately show ?thesis
    using to_cnf_validation[of "[[Some 0, Some 3, Some 7], [Some 0, Some 0, Some 0], [Some 1, Some 0, Some 0]]"]
      to_cnf_validation[of "[[Some 0, Some 2], [Some 0]]"]
    by blast
qed

text \<open>
  The claim as stated fails: a file of two lines, the first with three tokens and the clues
  \<open>3\<close> and \<open>7\<close>, is not square, its \<open>N = 2\<close> is not a perfect square, and a clue read by the
  encoder (\<open>3\<close>) is outside \<open>[0, 2]\<close>; \<open>to_cnf\<close> returns a CNF for it, with the unit clause
  \<open>[var(0, 1, 3)] = [5]\<close>.
\<close>

theorem to_cnf_validation_counterexample:
  "solving_to_cnf [[Some 0, Some 3, Some 7], [Some 0, Some 0]]
     = Inr ([[1, 2], [- 1, - 2], [3, 4], [- 3, - 4], [5, 6], [- 5, - 6], [7, 8], [- 7, - 8],
             [1, 3], [- 1, - 3], [2, 4], [- 2, - 4], [5, 7], [- 5, - 7], [6, 8], [- 6, - 8],
             [1, 5], [- 1, - 5], [2, 6], [- 2, - 6], [3, 7], [- 3, - 7], [4, 8], [- 4, - 8],
             [1], [2], [3], [4], [5], [6], [7], [8],
             [- 1, - 4], [- 1, - 6], [- 2, - 3], [- 2, - 5], [- 3, - 8], [- 4, - 7],
             [- 5, - 8], [- 6, - 7], [5]], 8)"
  by code_simp


lemma CODE_cell_clauses_9: "CODE_cell_clauses 9 = cell_clauses 9"
  by (simp add: CODE_cell_clauses_def cell_clauses_def CODE_cell_block_def cell_block_def)

lemma CODE_adjacency_block_mset:
  "mset (CODE_adjacency_block N i j v) = mset (adjacency_block N i j v)"
proof -
  have "v + 1 \<le> N \<longleftrightarrow> v < N" "v - 1 \<ge> 1 \<longleftrightarrow> v > 1" by auto
  then show ?thesis
    unfolding CODE_adjacency_block_def adjacency_block_def by simp
qed

lemma mset_concat_map_cong:
  "(\<And>x. x \<in> set xs \<Longrightarrow> mset (f x) = mset (g x))
   \<Longrightarrow> mset (concat (map f xs)) = mset (concat (map g xs))"
  by (induction xs) simp_all

lemma CODE_adjacency_clauses_mset:
  "mset (CODE_adjacency_clauses N) = mset (adjacency_clauses N)"
  unfolding CODE_adjacency_clauses_def adjacency_clauses_def
  by (intro mset_concat_map_cong) (simp add: CODE_adjacency_block_mset)

text \<open>
  Claim C9 (the two encoders agree on 9 by 9 puzzles). For every file of nine lines the two
  \<open>to_cnf\<close> functions either raise the same exception or return the same \<open>num_vars\<close> and
  clause lists that are equal as sets of clauses; the lists are even permutations of each
  other.
\<close>

theorem encoders_agree_9:
  assumes "length text = 9"
  shows "case (CODE_to_cnf text, solving_to_cnf text) of
           (Inr (clauses1, num_vars1), Inr (clauses2, num_vars2)) \<Rightarrow>
             num_vars1 = num_vars2 \<and> set clauses1 = set clauses2 \<and> mset clauses1 = mset clauses2
         | (Inl e1, Inl e2) \<Rightarrow> e1 = e2
         | _ \<Rightarrow> False"
proof (cases "clue_clauses 9 text [(r, c). r \<leftarrow> [0..<9], c \<leftarrow> [0..<9]]")
  case (Inl e)
  with assms show ?thesis
    by (simp add: CODE_to_cnf_def solving_to_cnf_def Let_def isqrt_eq_0)
next
  case (Inr clues)
  have "mset (CODE_cell_clauses 9 @ row_clauses 9 @ col_clauses 9 @ box_clauses 9 (isqrt 9)
              @ CODE_adjacency_clauses 9 @ clues)
      = mset (cell_clauses 9 @ row_clauses 9 @ col_clauses 9 @ box_clauses 9 (isqrt 9)
              @ adjacency_clauses 9 @ clues)"
    by (simp add: CODE_cell_clauses_9 CODE_adjacency_clauses_mset)
  moreover from this
  have "set (CODE_cell_clauses 9 @ row_clauses 9 @ col_clauses 9 @ box_clauses 9 (isqrt 9)
              @ CODE_adjacency_clauses 9 @ clues)
      = set (cell_clauses 9 @ row_clauses 9 @ col_clauses 9 @ box_clauses 9 (isqrt 9)
              @ adjacency_clauses 9 @ clues)"
    by (rule mset_eq_setD)
  ultimately show ?thesis
    using assms Inr by (simp add: CODE_to_cnf_def solving_to_cnf_def Let_def isqrt_eq_0)
qed

theorem encoders_agree_9_witness:
  "case (CODE_to_cnf (replicate 9 (replicate 9 (Some 0))),
         solving_to_cnf (replicate 9 (replicate 9 (Some 0)))) of
           (Inr (clauses1, num_vars1), Inr (clauses2, num_vars2)) \<Rightarrow>
             num_vars1 = num_vars2 \<and> set clauses1 = set clauses2 \<and> mset clauses1 = mset clauses2
         | (Inl e1, Inl e2) \<Rightarrow> e1 = e2
         | _ \<Rightarrow> False"
  by (rule encoders_agree_9) simp



section \<open>Properties of the unfinished solver\<close>

lemma init_truth_values:
  "foldl (\<lambda>tv i. tv(i \<mapsto> None)) tv0 js k = (if k \<in> set js then Some None else tv0 k)"
  by (induction js arbitrary: tv0) auto

lemma record_units:
  "foldl record_unit tv clauses k =
     (if units_on clauses k = [] then tv k else Some (Some (\<not> last (units_on clauses k) < 0)))"
proof (induction clauses rule: rev_induct)
  case Nil
  then show ?case by (simp add: units_on_def)
next
  case (snoc cl clauses)
  show ?case
  proof (cases "length cl = 1 \<and> \<bar>hd cl\<bar> = k")
    case True
    then have "units_on (clauses @ [cl]) k = units_on clauses k @ [hd cl]"
      by (simp add: units_on_def)
    moreover from True have "cl ! 0 = hd cl" by (cases cl) auto
    ultimately show ?thesis using True by (simp add: record_unit_def)
  next
    case False
    then have u: "units_on (clauses @ [cl]) k = units_on clauses k"
      by (auto simp: units_on_def)
    have "record_unit (foldl record_unit tv clauses) cl k = foldl record_unit tv clauses k"
    proof (cases "length cl = 1")
      case True
      then have "cl ! 0 = hd cl" by (cases cl) auto
      with True False have "\<bar>cl ! 0\<bar> \<noteq> k" by simp
      with True show ?thesis by (auto simp: record_unit_def)
    qed (simp add: record_unit_def)
    with snoc.IH u show ?thesis by simp
  qed
qed

text \<open>
  Claim C10 (the unfinished solver returns \<open>None\<close>). For every list of clauses and every
  \<open>num_vars\<close>, \<open>solve_cnf\<close> of src/solving/solver.py returns \<open>None\<close>, never a status with a
  model, and the dictionary it prints holds, for each variable \<open>k\<close>, the polarity of the last
  unit clause on \<open>k\<close> (\<open>False\<close> for a negative literal), Python's \<open>None\<close> for a variable in
  \<open>1 .. num_vars\<close> without a unit clause, and no entry otherwise.
\<close>

theorem solving_solve_cnf_returns_None:
  "snd (solving_solve_cnf clauses num_vars) = None
   \<and> fst (solving_solve_cnf clauses num_vars) k =
       (if units_on clauses k \<noteq> [] then Some (Some (\<not> last (units_on clauses k) < 0))
        else if 1 \<le> k \<and> k \<le> num_vars then Some None
        else None)"
  unfolding solving_solve_cnf_def Let_def
  by (simp add: record_units init_truth_values)

text \<open>
  Claim C5 (cell exactly-one family) at a 4 by 4 grid of blanks. The first clause that
  \<open>to_cnf\<close> of src/CODE emits, the at-least-one clause of cell \<open>(0, 0)\<close>, has the nine
  literals \<open>1 .. 9\<close> (its \<open>range(1, 10)\<close>), where the claim has the four literals
  \<open>var(0, 0, 1 .. 4)\<close>; \<open>to_cnf\<close> of src/solving emits those four.
\<close>

theorem CODE_cell_clause_nine_literals:
  "map_sum id (\<lambda>(clauses, num_vars). (hd clauses, num_vars))
     (CODE_to_cnf (replicate 4 (replicate 4 (Some 0))))
     = Inr ([1, 2, 3, 4, 5, 6, 7, 8, 9], 64)
   \<and> map_sum id (\<lambda>(clauses, num_vars). (hd clauses, num_vars))
     (solving_to_cnf (replicate 4 (replicate 4 (Some 0))))
     = Inr ([var 4 0 0 1, var 4 0 0 2, var 4 0 0 3, var 4 0 0 4], 64)"
  by code_simp

text \<open>
  Claim C4 (the decoder inverts the numbering with the puzzle's \<open>N\<close>) at a 4 by 4 puzzle,
  \<open>num_vars = 64\<close>. Variable \<open>6\<close> is \<open>var(0, 1, 2)\<close>, which the spec's inverse recovers; the
  decoding loop of \<open>solve_cnf\<close> divides by \<open>81\<close> and \<open>9\<close> and writes digit \<open>6\<close> into cell
  \<open>(0, 0)\<close> of a 9 by 9 grid.
\<close>

theorem decode_hardcodes_nine:
  "solve_cnf [[6]] 64
     = Inr (''SAT'', Some ([6, 0, 0, 0, 0, 0, 0, 0, 0] # replicate 8 (replicate 9 0)))
   \<and> unvar 4 6 = (0, 1, 2) \<and> var 4 0 1 2 = 6"
  by code_simp



section \<open>The adjacency family of the encoders\<close>




















































end
